theory Spec2Isabelle
  imports Complex_Main
begin

section \<open>Numeric model\<close>

text \<open>
  The program computes with numpy float64 values. A finite value is modelled as the real
  number it denotes and \<open>None\<close> stands for \<open>nan\<close>. Rounding decides two results of
  the program, and there each operation is modelled with the float64 rounding
  \<open>fl64\<close> defined below:
  \<^item> the number of rows of the resampler, the floor of a rounded quotient;
  \<^item> the arm angle, where the squares can underflow to 0, the quotient can overflow to
    an infinity, and an angle close to a right angle rounds onto 90.
  The smoothing, the interpolation, the time grid and the means are modelled on the
  exact reals: their rounding error, a few units in the last place, is abstracted
  away. The only place where the program can leave the finite values is \<open>ang\<close>;
  numpy does not raise there, it yields \<open>inf\<close>, \<open>-inf\<close> or \<open>nan\<close> (with a warning)
  and goes on. \<open>arctan\<close> maps the infinities back to finite angles, so past \<open>ang\<close> a
  value is either finite or \<open>nan\<close>, and every operation that numpy applies to such
  values propagates \<open>nan\<close> as IEEE arithmetic does.
\<close>

type_synonym npfloat = "real option"

definition np_sub :: "npfloat \<Rightarrow> npfloat \<Rightarrow> npfloat" where
  "np_sub a b = (case a of None \<Rightarrow> None | Some x \<Rightarrow> (case b of None \<Rightarrow> None | Some y \<Rightarrow> Some (x - y)))"

definition np_add :: "npfloat \<Rightarrow> npfloat \<Rightarrow> npfloat" where
  "np_add a b = (case a of None \<Rightarrow> None | Some x \<Rightarrow> (case b of None \<Rightarrow> None | Some y \<Rightarrow> Some (x + y)))"

definition np_abs :: "npfloat \<Rightarrow> npfloat" where
  "np_abs a = (case a of None \<Rightarrow> None | Some x \<Rightarrow> Some \<bar>x\<bar>)"

text \<open>\<open>np.mean\<close>: the sum of all slots divided by their number; \<open>nan\<close> for an empty array.\<close>

definition np_mean :: "npfloat list \<Rightarrow> npfloat" where
  "np_mean xs =
     (if xs = [] then None
      else (case foldr np_add xs (Some 0) of None \<Rightarrow> None
            | Some s \<Rightarrow> Some (s / real (length xs))))"

text \<open>\<open>x > thr\<close> on a float: false for \<open>nan\<close>.\<close>

definition np_gt :: "npfloat \<Rightarrow> real \<Rightarrow> bool" where
  "np_gt a thr = (case a of None \<Rightarrow> False | Some x \<Rightarrow> thr < x)"

text \<open>\<open>np.any(hist > thr)\<close>.\<close>

definition np_any_gt :: "npfloat list \<Rightarrow> real \<Rightarrow> bool" where
  "np_any_gt xs thr = list_ex (\<lambda>c. np_gt c thr) xs"

text \<open>
  The shift \<open>a[1:] = a[:-1]; a[0] = x\<close> on a fixed-size array: the newest value goes
  to the front, the oldest one falls off the end. On an array of size 0 the store
  \<open>a[0] = x\<close> would raise; both arrays of the program have a fixed positive size.
\<close>

definition push :: "'a \<Rightarrow> 'a list \<Rightarrow> 'a list" where
  "push x xs = x # butlast xs"

section \<open>Rounding to float64\<close>

text \<open>The power of two with an integer exponent.\<close>

definition p2 :: "int \<Rightarrow> real" where
  "p2 e = (if 0 \<le> e then 2 ^ nat e else 1 / 2 ^ nat (- e))"

text \<open>Rounding to the nearest integer, a tie to the even one.\<close>

definition rne :: "real \<Rightarrow> int" where
  "rne q =
     (let f = \<lfloor>q\<rfloor>
      in if q - of_int f < 1 / 2 then f
         else if 1 / 2 < q - of_int f then f + 1
         else if even f then f else f + 1)"

text \<open>
  The binary exponent of the float64 numbers around \<open>x\<close>: \<open>floor(log2 |x|)\<close>, and
  \<open>-1022\<close>, the exponent of the subnormal numbers, below the normal range. The float64
  numbers around \<open>x\<close> are the multiples of \<open>ulp64 x\<close>, 53 significant bits.
\<close>

definition binade :: "real \<Rightarrow> int" where
  "binade x = max \<lfloor>log 2 \<bar>x\<bar>\<rfloor> (- 1022)"

definition ulp64 :: "real \<Rightarrow> real" where
  "ulp64 x = p2 (binade x - 52)"

text \<open>
  \<open>fl64 x\<close>: the float64 nearest to \<open>x\<close>, a tie to the one with the even significand
  (IEEE 754 round to nearest even, the rounding of every float64 operation), with gradual
  underflow: a magnitude of \<open>2^-1075\<close> or less rounds to 0. The exponent is not bounded
  above here; a rounded magnitude of \<open>2^1024\<close> or more is the overflow to an infinity,
  which \<open>rnd\<close> makes explicit.
\<close>

definition fl64 :: "real \<Rightarrow> real" where
  "fl64 x = of_int (rne (x / ulp64 x)) * ulp64 x"

text \<open>
  A float64 with its infinities and \<open>nan\<close>, for the intermediate values of \<open>ang\<close>;
  \<open>rnd\<close> is the result of an operation whose exact value is \<open>x\<close>.
\<close>

datatype f64 = Fin real | PInf | NInf | NaN

definition rnd :: "real \<Rightarrow> f64" where
  "rnd x =
     (if 2 ^ 1024 \<le> fl64 x then PInf
      else if fl64 x \<le> - (2 ^ 1024) then NInf
      else Fin (fl64 x))"

text \<open>Float64 addition and square root.\<close>

definition f64_add :: "f64 \<Rightarrow> f64 \<Rightarrow> f64" where
  "f64_add a b =
     (case a of
        Fin x \<Rightarrow> (case b of Fin y \<Rightarrow> rnd (x + y) | PInf \<Rightarrow> PInf | NInf \<Rightarrow> NInf | NaN \<Rightarrow> NaN)
      | PInf \<Rightarrow> (case b of Fin y \<Rightarrow> PInf | PInf \<Rightarrow> PInf | NInf \<Rightarrow> NaN | NaN \<Rightarrow> NaN)
      | NInf \<Rightarrow> (case b of Fin y \<Rightarrow> NInf | PInf \<Rightarrow> NaN | NInf \<Rightarrow> NInf | NaN \<Rightarrow> NaN)
      | NaN \<Rightarrow> NaN)"

definition f64_sqrt :: "f64 \<Rightarrow> f64" where
  "f64_sqrt a =
     (case a of
        Fin x \<Rightarrow> (if x < 0 then NaN else rnd (sqrt x))
      | PInf \<Rightarrow> PInf
      | NInf \<Rightarrow> NaN
      | NaN \<Rightarrow> NaN)"

text \<open>
  Float64 division of a finite number by a float64 that is not negative (the divisor of
  \<open>ang\<close> is a square root): a division by 0 does not raise, it gives an infinity with
  the sign of the numerator, and \<open>nan\<close> for \<open>0/0\<close>; a division by \<open>inf\<close> gives 0.
\<close>

definition f64_div :: "real \<Rightarrow> f64 \<Rightarrow> f64" where
  "f64_div x d =
     (case d of
        Fin y \<Rightarrow>
          (if y = 0 then (if 0 < x then PInf else if x < 0 then NInf else NaN)
           else rnd (x / y))
      | PInf \<Rightarrow> Fin 0
      | NInf \<Rightarrow> Fin 0
      | NaN \<Rightarrow> NaN)"

section \<open>The resampler \<open>stimuli\<close>\<close>

datatype error = IndexError | ValueError

text \<open>A row of the returned array: columns 0 to 4.\<close>

record urow =
  ts :: real
  ax :: real
  ay :: real
  az :: real
  label :: real

definition fs :: nat where
  "fs = 10"

text \<open>
  \<open>np.linspace(start, stop, num)\<close> with the default \<open>endpoint=True\<close>: \<open>num\<close> points,
  the first one \<open>start\<close>, the last one \<open>stop\<close>, so \<open>num - 1\<close> equal steps. For
  \<open>num = 1\<close> numpy returns \<open>[start]\<close>, for \<open>num = 0\<close> the empty array; a negative
  \<open>num\<close> raises ValueError (handled by the caller below).
\<close>

definition linspace :: "real \<Rightarrow> real \<Rightarrow> nat \<Rightarrow> real list" where
  "linspace start stop num =
     (if num = 1 then [start]
      else map (\<lambda>i. start + real i * ((stop - start) / real (num - 1))) [0..<num])"

text \<open>
  \<open>np.interp(x, xp, fp)\<close> at one point, for increasing \<open>xp\<close> (numpy does not check
  that): piecewise linear between the sample points, the first value to the left of
  them and the last value to their right. The points are the pairs \<open>(xp[j], fp[j])\<close>.
\<close>

fun interp :: "real \<Rightarrow> (real \<times> real) list \<Rightarrow> real" where
  "interp x [] = 0"
| "interp x [(x0, y0)] = y0"
| "interp x ((x0, y0) # (x1, y1) # ps) =
     (if x < x1
      then (if x \<le> x0 then y0 else y0 + (y1 - y0) / (x1 - x0) * (x - x0))
      else interp x ((x1, y1) # ps))"

text \<open>
  The loop of lines 49-50: for each grid timestamp after the first, the rows of
  \<open>truth\<close> with a timestamp strictly below it are selected and the label of the last
  one is taken; \<open>[-1]\<close> on an empty selection raises IndexError.
\<close>

fun hold_loop :: "(real \<times> real) list \<Rightarrow> real list \<Rightarrow> error + real list" where
  "hold_loop truth [] = Inr []"
| "hold_loop truth (x # xs) =
     (case filter (\<lambda>r. fst r < x) truth of
        [] \<Rightarrow> Inl IndexError
      | r # rs \<Rightarrow>
          (case hold_loop truth xs of
             Inl e \<Rightarrow> Inl e
           | Inr ls \<Rightarrow> Inr (snd (last (r # rs)) # ls)))"

text \<open>
  \<open>stimuli\<close> after the two files are loaded: \<open>accel0\<close> holds the rows
  \<open>(t, ax, ay, az)\<close> of the motion file, \<open>truth\<close> the rows \<open>(t, label)\<close> of the label
  file, each field the float64 that \<open>np.genfromtxt\<close> parsed. \<open>np.genfromtxt\<close> returns
  a two-dimensional array only for a file of at least two rows; a file of one row loads
  as a one-dimensional array, on which the column indexing raises IndexError. For the
  label file that is the branch \<open>length truth < 2\<close> below (at \<open>truth[0, 1]\<close>, line 47).
  A motion file of fewer than two rows fails at line 27 already, with the IndexError
  that the branches below give for it as well (no row, or \<open>N = 0\<close>; lemma
  \<open>stimuli_short_motion_file\<close>).

  \<open>N\<close> is computed as the program does it, \<open>int(np.floor(delta_t / (1/fs)))\<close> in
  float64: the difference, the quotient \<open>1/fs\<close> (the float64 next to 0.1) and the
  division are rounded, so \<open>N\<close> is not always \<open>floor((t[-1] - t[0]) * fs)\<close> (an
  overflow of the difference or the quotient, for timestamps beyond \<open>1e307\<close>, is not
  modelled). Every place where the source raises is a branch:
  \<^item> \<open>t[-1]\<close> on an empty trimmed stream: IndexError;
  \<^item> \<open>np.linspace\<close> with a negative \<open>N\<close>: ValueError;
  \<^item> \<open>truth[0, 1]\<close> on a label array of fewer than two rows, and the store
    \<open>truth_interp[0] = ...\<close> into \<open>np.zeros(0)\<close>: IndexError;
  \<^item> the selection in the loop: IndexError.
\<close>

definition stimuli :: "(real \<times> real \<times> real \<times> real) list \<Rightarrow> (real \<times> real) list \<Rightarrow> error + urow list" where
  "stimuli accel0 truth =
     (let accel = filter (\<lambda>r. 0 \<le> fst r) accel0;
          t = map fst accel
      in if t = [] then Inl IndexError
         else
           let delta_t = fl64 (last t - hd t);
               N = \<lfloor>fl64 (delta_t / fl64 (1 / real fs))\<rfloor>
           in if N < 0 then Inl ValueError
              else
                let ti = linspace (hd t) (hd t + real_of_int N / real fs) (nat N);
                    axi = map (\<lambda>x. interp x (zip t (map (\<lambda>r. fst (snd r)) accel))) ti;
                    ayi = map (\<lambda>x. interp x (zip t (map (\<lambda>r. fst (snd (snd r))) accel))) ti;
                    azi = map (\<lambda>x. interp x (zip t (map (\<lambda>r. snd (snd (snd r))) accel))) ti
                in if length truth < 2 \<or> nat N = 0 then Inl IndexError
                   else
                     (case hold_loop truth (tl ti) of
                        Inl e \<Rightarrow> Inl e
                      | Inr ls \<Rightarrow>
                          let truth_interp = snd (hd truth) # ls
                          in Inr (map (\<lambda>i. \<lparr>ts = ti ! i, ax = axi ! i, ay = ayi ! i,
                                             az = azi ! i, label = truth_interp ! i\<rparr>)
                                      [0..<nat N])))"

section \<open>The classifier \<open>vanhees2015_modified\<close>\<close>

definition ema :: "real \<Rightarrow> real \<Rightarrow> real \<Rightarrow> real" where
  "ema x y eta = y + eta * (x - y)"

definition emm :: "real \<Rightarrow> real \<Rightarrow> real \<Rightarrow> real" where
  "emm x y eta = y + eta * sgn (x - y)"

text \<open>\<open>ema\<close> on the three axes at once, as numpy broadcasts it.\<close>

definition ema3 :: "real \<times> real \<times> real \<Rightarrow> real \<times> real \<times> real \<Rightarrow> real \<Rightarrow> real \<times> real \<times> real" where
  "ema3 x y eta =
     (ema (fst x) (fst y) eta, ema (fst (snd x)) (fst (snd y)) eta,
      ema (snd (snd x)) (snd (snd y)) eta)"

text \<open>
  The divisor of \<open>ang\<close>, \<open>np.sqrt(accel[0]**2 + accel[1]**2)\<close>, operation by
  operation: each square and their sum are rounded, and can underflow to 0 or overflow
  to \<open>inf\<close>; the square root is rounded.
\<close>

definition ang_divisor :: "real \<times> real \<times> real \<Rightarrow> f64" where
  "ang_divisor accel =
     f64_sqrt (f64_add (rnd (fst accel * fst accel))
                       (rnd (fst (snd accel) * fst (snd accel))))"

text \<open>
  \<open>ang\<close>: the quotient \<open>accel[2] / divisor\<close> is rounded; a divisor 0 gives \<open>inf\<close>,
  \<open>-inf\<close> or \<open>nan\<close>. The conversion \<open>np.arctan(q) * 180/np.pi\<close> of a finite quotient
  is taken as a whole, as the float64 nearest to the exact angle: the arctan that numpy
  calls is not specified to the last bit, so only the range of such an angle and its
  value at simple quotients are stated below. For an infinite quotient the program's
  result is exactly 90 or -90: \<open>np.arctan\<close> returns the float64 nearest to \<open>pi/2\<close>, and
  the product with 180 and the division by \<open>np.pi\<close>, each rounded, give 90 (lemma
  \<open>right_angle_float64\<close> below). \<open>nan\<close> stays \<open>nan\<close>.
\<close>

definition ang :: "real \<times> real \<times> real \<Rightarrow> npfloat" where
  "ang accel =
     (case f64_div (snd (snd accel)) (ang_divisor accel) of
        Fin q \<Rightarrow> Some (fl64 (arctan q * 180 / pi))
      | PInf \<Rightarrow> Some 90
      | NInf \<Rightarrow> Some (- 90)
      | NaN \<Rightarrow> None)"

definition eta :: real where
  "eta = 5 / 1000"

definition seconds_per_update :: nat where
  "seconds_per_update = 5"

definition classification_hist_size :: nat where
  "classification_hist_size = 60"

definition arm_angle_threshold :: real where
  "arm_angle_threshold = 5"

text \<open>A row of \<open>dbg\<close>: columns 0 to 6, each \<open>nan\<close> until it is written.\<close>

record dbg_row =
  d_t :: npfloat
  d_ax :: npfloat
  d_ay :: npfloat
  d_az :: npfloat
  d_ang :: npfloat
  d_mean :: npfloat
  d_change :: npfloat

definition nan_row :: dbg_row where
  "nan_row = \<lparr>d_t = None, d_ax = None, d_ay = None, d_az = None, d_ang = None,
              d_mean = None, d_change = None\<rparr>"

text \<open>
  The variables of the loop. \<open>arm_angle_mean_d\<close> is Python's \<open>None\<close> (here the outer
  \<open>None\<close>) until the first window mean is stored. \<open>ret\<close> holds the pairs
  \<open>[t, state]\<close>.
\<close>

record vh_state =
  accel_avgs :: "real \<times> real \<times> real"
  arm_angle_hist :: "npfloat list"
  arm_angle_mean_d :: "npfloat option"
  arm_angle_change_hist :: "npfloat list"
  ret :: "(real \<times> nat) list"
  dbg :: "dbg_row list"

definition vh_init :: "nat \<Rightarrow> vh_state" where
  "vh_init n =
     \<lparr>accel_avgs = (0, 0, 0),
      arm_angle_hist = replicate (fs * seconds_per_update) (Some 0),
      arm_angle_mean_d = None,
      arm_angle_change_hist = replicate classification_hist_size (Some 0),
      ret = [(0, 0)],
      dbg = replicate n nan_row\<rparr>"

text \<open>The body of the loop at index \<open>i\<close> on the row \<open>x = stim[i]\<close>.\<close>

definition vh_body :: "nat \<Rightarrow> urow \<Rightarrow> vh_state \<Rightarrow> vh_state" where
  "vh_body i x s =
     (let avgs = ema3 (ax x, ay x, az x) (accel_avgs s) eta;
          hist = push (ang avgs) (arm_angle_hist s);
          row = \<lparr>d_t = Some (ts x), d_ax = Some (fst avgs), d_ay = Some (fst (snd avgs)),
                 d_az = Some (snd (snd avgs)), d_ang = hd hist, d_mean = None,
                 d_change = None\<rparr>;
          s1 = s\<lparr>accel_avgs := avgs, arm_angle_hist := hist\<rparr>
      in if i mod (fs * seconds_per_update) = 0
         then
           let arm_angle_mean = np_mean hist
           in (case arm_angle_mean_d s of
                 None \<Rightarrow>
                   s1\<lparr>arm_angle_mean_d := Some arm_angle_mean,
                      dbg := (dbg s)[i := row\<lparr>d_mean := arm_angle_mean\<rparr>]\<rparr>
               | Some d \<Rightarrow>
                   let arm_angle_change = np_abs (np_sub arm_angle_mean d);
                       change_hist = push arm_angle_change (arm_angle_change_hist s);
                       new_state = (if np_any_gt change_hist arm_angle_threshold
                                    then 0 else 1)
                   in s1\<lparr>arm_angle_mean_d := Some arm_angle_mean,
                         arm_angle_change_hist := change_hist,
                         ret := ret s @ [(ts x, new_state)],
                         dbg := (dbg s)[i := row\<lparr>d_mean := arm_angle_mean,
                                                  d_change := arm_angle_change\<rparr>]\<rparr>)
         else s1\<lparr>dbg := (dbg s)[i := row]\<rparr>)"

text \<open>\<open>for i in range(len(stim))\<close>, started at index \<open>i\<close>.\<close>

fun vh_loop :: "nat \<Rightarrow> urow list \<Rightarrow> vh_state \<Rightarrow> vh_state" where
  "vh_loop i [] s = s"
| "vh_loop i (x # xs) s = vh_loop (Suc i) xs (vh_body i x s)"

definition vanhees2015_modified :: "urow list \<Rightarrow> (real \<times> nat) list \<times> dbg_row list" where
  "vanhees2015_modified stim =
     (let s = vh_loop 0 stim (vh_init (length stim)) in (ret s, dbg s))"

text \<open>
  The state before the call with index \<open>i\<close>: the loop run on the first \<open>i\<close> rows.
\<close>

definition vh_prefix :: "urow list \<Rightarrow> nat \<Rightarrow> vh_state" where
  "vh_prefix stim i = vh_loop 0 (take i stim) (vh_init (length stim))"

text \<open>
  What the two returned arrays show of window \<open>k\<close> (the boundary at row
  \<open>fs * seconds_per_update * k\<close>): the change logged in column 6 of \<open>dbg\<close>, and the state
  of the \<open>k\<close>-th row of \<open>ret\<close> (row 0 is the seed).
\<close>

definition window_change :: "urow list \<Rightarrow> nat \<Rightarrow> npfloat" where
  "window_change stim k =
     d_change (snd (vanhees2015_modified stim) ! (fs * seconds_per_update * k))"

definition event_state :: "urow list \<Rightarrow> nat \<Rightarrow> nat" where
  "event_state stim k = snd (fst (vanhees2015_modified stim) ! k)"

text \<open>
  The changes of the last \<open>classification_hist_size\<close> windows up to window \<open>k\<close>, newest
  first, on top of the zeros the history starts with.
\<close>

definition recent_changes :: "urow list \<Rightarrow> nat \<Rightarrow> npfloat list" where
  "recent_changes stim k =
     take classification_hist_size
       (rev (map (window_change stim) [1..<Suc k]) @
        replicate classification_hist_size (Some 0))"

text \<open>
  The trimmed stream, the number \<open>N\<close> and the time grid \<open>ti\<close> that \<open>stimuli\<close> computes
  (lines 27 to 34), named for the statements about it.
\<close>

definition trimmed :: "(real \<times> real \<times> real \<times> real) list \<Rightarrow> (real \<times> real \<times> real \<times> real) list" where
  "trimmed accel0 = filter (\<lambda>r. 0 \<le> fst r) accel0"

definition grid_N :: "(real \<times> real \<times> real \<times> real) list \<Rightarrow> int" where
  "grid_N accel0 =
     \<lfloor>fl64 (fl64 (last (map fst (trimmed accel0)) - hd (map fst (trimmed accel0))) /
             fl64 (1 / real fs))\<rfloor>"

definition grid :: "(real \<times> real \<times> real \<times> real) list \<Rightarrow> real list" where
  "grid accel0 =
     linspace (hd (map fst (trimmed accel0)))
       (hd (map fst (trimmed accel0)) + real_of_int (grid_N accel0) / real fs)
       (nat (grid_N accel0))"

section \<open>Facts about the rounding\<close>

lemma p2_powr: "p2 e = 2 powr (of_int e)"
  by (simp add: p2_def powr_int)

lemma p2_pos: "0 < p2 e"
  by (simp add: p2_powr)

lemma p2_add: "p2 (a + b) = p2 a * p2 b"
  by (simp add: p2_powr powr_add)

lemma p2_mono: "a \<le> b \<Longrightarrow> p2 a \<le> p2 b"
  by (simp add: p2_powr)

lemma p2_less_iff: "p2 a < p2 b \<longleftrightarrow> a < b"
  unfolding p2_powr by simp

lemma p2_le_iff: "p2 a \<le> p2 b \<longleftrightarrow> a \<le> b"
  unfolding p2_powr by simp

lemma p2_half: "p2 (e - 1) = p2 e / 2"
  using p2_add [of "e - 1" 1] by (simp add: p2_def)

lemma rne_eqI: "\<bar>q - of_int m\<bar> < 1 / 2 \<Longrightarrow> rne q = m"
proof (cases "of_int m \<le> q")
  case True
  assume a: "\<bar>q - of_int m\<bar> < 1 / 2"
  with True have "\<lfloor>q\<rfloor> = m" unfolding floor_eq_iff by linarith
  with a True show ?thesis by (simp add: rne_def Let_def)
next
  case False
  assume a: "\<bar>q - of_int m\<bar> < 1 / 2"
  with False have f: "\<lfloor>q\<rfloor> = m - 1" unfolding floor_eq_iff by simp
  have "\<not> q - of_int (m - 1) < 1 / 2" "1 / 2 < q - of_int (m - 1)"
    using a False by simp_all
  then show ?thesis unfolding rne_def Let_def f by simp
qed

lemma rne_floor_le: "\<lfloor>q\<rfloor> \<le> rne q"
  by (simp add: rne_def Let_def)

lemma rne_le: "q \<le> of_int k \<Longrightarrow> rne q \<le> k"
proof -
  assume a: "q \<le> of_int k"
  show ?thesis
  proof (cases "q = of_int k")
    case True
    then show ?thesis by (simp add: rne_def Let_def)
  next
    case False
    with a have "q < of_int k" by simp
    then have "\<lfloor>q\<rfloor> < k" by (simp add: floor_less_iff)
    then show ?thesis by (simp add: rne_def Let_def)
  qed
qed

lemma rne_ge: "of_int k \<le> q \<Longrightarrow> k \<le> rne q"
proof -
  assume "of_int k \<le> q"
  then have "k \<le> \<lfloor>q\<rfloor>" by (simp add: le_floor_iff)
  with rne_floor_le [of q] show ?thesis by linarith
qed

lemma rne_eq_0_iff: "rne q = 0 \<longleftrightarrow> \<bar>q\<bar> \<le> 1 / 2"
proof
  assume z: "rne q = 0"
  show "\<bar>q\<bar> \<le> 1 / 2"
  proof (rule ccontr)
    assume "\<not> \<bar>q\<bar> \<le> 1 / 2"
    then consider "1 / 2 < q" | "q < - (1 / 2)" by linarith
    then show False
    proof cases
      case 1
      show False
      proof (cases "1 \<le> q")
        case True
        from rne_ge [of 1 q] True z show False by simp
      next
        case False
        with 1 have "\<lfloor>q\<rfloor> = 0" by (simp add: floor_eq_iff)
        with 1 z show False by (simp add: rne_def Let_def)
      qed
    next
      case 2
      show False
      proof (cases "q \<le> - 1")
        case True
        from rne_le [of q "- 1"] True z show False by simp
      next
        case False
        with 2 have "\<lfloor>q\<rfloor> = - 1" by (simp add: floor_eq_iff)
        with 2 z show False by (simp add: rne_def Let_def)
      qed
    qed
  qed
next
  assume a: "\<bar>q\<bar> \<le> 1 / 2"
  show "rne q = 0"
  proof (cases "\<bar>q\<bar> < 1 / 2")
    case True
    then show ?thesis by (intro rne_eqI) simp
  next
    case False
    with a consider "q = 1 / 2" | "q = - (1 / 2)" by linarith
    then show ?thesis
    proof cases
      case 1
      then have "\<lfloor>q\<rfloor> = 0" by (simp add: floor_eq_iff)
      with 1 show ?thesis by (simp add: rne_def Let_def)
    next
      case 2
      then have "\<lfloor>q\<rfloor> = - 1" by (simp add: floor_eq_iff)
      with 2 show ?thesis by (simp add: rne_def Let_def)
    qed
  qed
qed

lemma binade_eqI:
  assumes "p2 e \<le> \<bar>x\<bar>" and "\<bar>x\<bar> < p2 (e + 1)" and "- 1022 \<le> e"
  shows "binade x = e"
proof -
  have pos: "0 < \<bar>x\<bar>" using assms(1) p2_pos [of e] by linarith
  have "\<lfloor>log 2 \<bar>x\<bar>\<rfloor> = e"
    using assms(1,2) pos by (simp add: floor_log_eq_powr_iff p2_powr)
  with assms(3) show ?thesis by (simp add: binade_def)
qed

lemma binade_subnormal:
  assumes "\<bar>x\<bar> < p2 (- 1022)" and "x \<noteq> 0"
  shows "binade x = - 1022"
proof -
  from assms(2) have pos: "0 < \<bar>x\<bar>" by simp
  have "log 2 \<bar>x\<bar> < of_int (- 1022)"
    using assms pos by (simp add: log_less_iff p2_powr)
  then have "\<lfloor>log 2 \<bar>x\<bar>\<rfloor> < - 1022" by (simp add: floor_less_iff)
  then show ?thesis by (simp add: binade_def)
qed


lemma binade_ge: "- 1022 \<le> binade x"
  by (simp add: binade_def)

lemma binade_normal:
  assumes "p2 (- 1022) \<le> \<bar>x\<bar>"
  shows "p2 (binade x) \<le> \<bar>x\<bar> \<and> \<bar>x\<bar> < p2 (binade x + 1)"
proof -
  have pos: "0 < \<bar>x\<bar>" using assms p2_pos [of "- 1022"] by linarith
  define e where "e = \<lfloor>log 2 \<bar>x\<bar>\<rfloor>"
  have e: "p2 e \<le> \<bar>x\<bar> \<and> \<bar>x\<bar> < p2 (e + 1)"
    using pos floor_log_eq_powr_iff [of "\<bar>x\<bar>" 2 e] by (simp add: e_def p2_powr)
  have "- 1022 \<le> e"
  proof (rule ccontr)
    assume "\<not> - 1022 \<le> e"
    then have "e + 1 \<le> - 1022" by simp
    then have "p2 (e + 1) \<le> p2 (- 1022)" by (rule p2_mono)
    with e assms show False by linarith
  qed
  then have "binade x = e" by (simp add: binade_def e_def)
  with e show ?thesis by simp
qed

lemma fl64_0: "fl64 0 = 0"
  by (simp add: fl64_def rne_eq_0_iff)

lemma fl64_eqI:
  assumes "binade x = e" and "\<bar>x - of_int m * p2 (e - 52)\<bar> < p2 (e - 53)"
  shows "fl64 x = of_int m * p2 (e - 52)"
proof -
  let ?u = "p2 (e - 52)"
  have u: "0 < ?u" by (rule p2_pos)
  have h: "p2 (e - 53) = ?u / 2" using p2_half [of "e - 52"] by simp
  have "\<bar>x / ?u - of_int m\<bar> = \<bar>x - of_int m * ?u\<bar> / ?u"
    using u by (simp add: field_simps abs_if)
  also have "\<dots> < (?u / 2) / ?u"
    using assms(2) u unfolding h by (simp add: divide_strict_right_mono)
  also have "\<dots> = 1 / 2" using u by simp
  finally have "rne (x / ?u) = m" by (rule rne_eqI)
  then show ?thesis by (simp add: fl64_def ulp64_def assms(1))
qed

lemma fl64_normal:
  assumes "p2 e \<le> \<bar>x\<bar>" and "\<bar>x\<bar> < p2 (e + 1)" and "- 1022 \<le> e"
    and "\<bar>x - of_int m * p2 (e - 52)\<bar> < p2 (e - 53)"
  shows "fl64 x = of_int m * p2 (e - 52)"
  using binade_eqI [OF assms(1-3)] assms(4) by (rule fl64_eqI)

lemma fl64_eq_0_iff: "fl64 x = 0 \<longleftrightarrow> \<bar>x\<bar> \<le> p2 (- 1075)"
proof (cases "x = 0")
  case True
  then show ?thesis using p2_pos [of "- 1075"] by (simp add: fl64_0 less_imp_le)
next
  case nz: False
  have u: "0 < ulp64 x" by (simp add: ulp64_def p2_pos)
  have "fl64 x = 0 \<longleftrightarrow> \<bar>x / ulp64 x\<bar> \<le> 1 / 2"
    using u by (simp add: fl64_def rne_eq_0_iff)
  also have "\<dots> \<longleftrightarrow> \<bar>x\<bar> \<le> ulp64 x / 2"
    using u by (simp add: field_simps)
  also have "\<dots> \<longleftrightarrow> \<bar>x\<bar> \<le> p2 (- 1075)"
  proof (cases "\<bar>x\<bar> < p2 (- 1022)")
    case True
    then have "ulp64 x = p2 (- 1074)" using nz by (simp add: ulp64_def binade_subnormal)
    then have "ulp64 x / 2 = p2 (- 1075)" using p2_half [of "- 1074"] by simp
    then show ?thesis by simp
  next
    case False
    then have n: "p2 (- 1022) \<le> \<bar>x\<bar>" by simp
    from binade_normal [OF n] have b: "p2 (binade x) \<le> \<bar>x\<bar>" by simp
    have "ulp64 x / 2 = p2 (binade x - 53)"
      using p2_half [of "binade x - 52"] by (simp add: ulp64_def)
    also have "\<dots> < p2 (binade x)"
      by (simp add: p2_less_iff)
    finally have "\<not> \<bar>x\<bar> \<le> ulp64 x / 2" using b by linarith
    moreover have "p2 (- 1075) < p2 (- 1022)" by (simp add: p2_less_iff)
    then have "\<not> \<bar>x\<bar> \<le> p2 (- 1075)" using n by linarith
    ultimately show ?thesis by simp
  qed
  finally show ?thesis .
qed

lemma fl64_nonneg: "0 \<le> x \<Longrightarrow> 0 \<le> fl64 x"
proof -
  assume "0 \<le> x"
  then have "of_int 0 \<le> x / ulp64 x" by (simp add: ulp64_def p2_pos less_imp_le)
  then have "0 \<le> rne (x / ulp64 x)" by (rule rne_ge)
  then show ?thesis by (simp add: fl64_def ulp64_def p2_pos less_imp_le)
qed

lemma fl64_nonpos: "x \<le> 0 \<Longrightarrow> fl64 x \<le> 0"
proof -
  assume "x \<le> 0"
  then have "x / ulp64 x \<le> of_int 0"
    by (simp add: ulp64_def p2_pos less_imp_le divide_nonpos_pos)
  then have "rne (x / ulp64 x) \<le> 0" by (rule rne_le)
  then show ?thesis
    by (simp add: fl64_def ulp64_def p2_pos less_imp_le mult_nonpos_nonneg)
qed

lemma fl64_nonzero_ge:
  assumes "0 \<le> x" and "fl64 x \<noteq> 0"
  shows "p2 (- 1074) \<le> fl64 x"
proof -
  have u: "p2 (- 1074) \<le> ulp64 x"
    unfolding ulp64_def using binade_ge [of x] by (intro p2_mono) simp
  have "0 \<le> fl64 x" using assms(1) by (rule fl64_nonneg)
  with assms(2) have "0 < fl64 x" by simp
  then have "0 < rne (x / ulp64 x)"
    using p2_pos [of "binade x - 52"] by (simp add: fl64_def ulp64_def zero_less_mult_iff)
  then have "1 \<le> (of_int (rne (x / ulp64 x)) :: real)" by simp
  then have "ulp64 x \<le> fl64 x"
    using p2_pos [of "binade x - 52"] by (simp add: fl64_def ulp64_def)
  with u show ?thesis by linarith
qed


section \<open>The angle\<close>

lemma rnd_0: "rnd 0 = Fin 0"
  by (simp add: rnd_def fl64_0)

lemma rnd_eq_Fin_0_iff: "rnd x = Fin 0 \<longleftrightarrow> fl64 x = 0"
  by (simp add: rnd_def)

lemma rnd_nonneg_cases:
  assumes "0 \<le> x"
  obtains "rnd x = Fin (fl64 x)" and "0 \<le> fl64 x" | "rnd x = PInf"
proof -
  have "0 \<le> fl64 x" using assms by (rule fl64_nonneg)
  then have "rnd x = PInf \<or> rnd x = Fin (fl64 x)" by (simp add: rnd_def)
  with \<open>0 \<le> fl64 x\<close> that show ?thesis by blast
qed

lemma f64_add_squares_zero_iff:
  assumes "0 \<le> p" and "0 \<le> q"
  shows "f64_add (rnd p) (rnd q) = Fin 0 \<longleftrightarrow> fl64 p = 0 \<and> fl64 q = 0"
proof
  assume "fl64 p = 0 \<and> fl64 q = 0"
  then have "rnd p = Fin 0" "rnd q = Fin 0" by (simp_all add: rnd_eq_Fin_0_iff)
  then show "f64_add (rnd p) (rnd q) = Fin 0" by (simp add: f64_add_def rnd_0)
next
  assume z: "f64_add (rnd p) (rnd q) = Fin 0"
  have lt: "p2 (- 1075) < p2 (- 1074)" by (simp add: p2_less_iff)
  from assms(1) show "fl64 p = 0 \<and> fl64 q = 0"
  proof (cases rule: rnd_nonneg_cases)
    case 2
    with z show ?thesis by (simp add: f64_add_def split: f64.splits)
  next
    case p: 1
    from assms(2) show ?thesis
    proof (cases rule: rnd_nonneg_cases)
      case 2
      with z p show ?thesis by (simp add: f64_add_def)
    next
      case q: 1
      from z p q have "rnd (fl64 p + fl64 q) = Fin 0" by (simp add: f64_add_def)
      then have "fl64 (fl64 p + fl64 q) = 0" by (simp add: rnd_eq_Fin_0_iff)
      then have s: "fl64 p + fl64 q \<le> p2 (- 1075)"
        using p(2) q(2) by (simp add: fl64_eq_0_iff)
      have "fl64 p = 0"
      proof (rule ccontr)
        assume "fl64 p \<noteq> 0"
        from fl64_nonzero_ge [OF assms(1) this] s q(2) lt show False by linarith
      qed
      moreover have "fl64 q = 0"
      proof (rule ccontr)
        assume "fl64 q \<noteq> 0"
        from fl64_nonzero_ge [OF assms(2) this] s p(2) lt show False by linarith
      qed
      ultimately show ?thesis by simp
    qed
  qed
qed

lemma f64_add_squares_cases:
  assumes "0 \<le> p" and "0 \<le> q"
  obtains s where "f64_add (rnd p) (rnd q) = Fin s" and "s = 0 \<or> p2 (- 1074) \<le> s"
  | "f64_add (rnd p) (rnd q) = PInf"
proof -
  from assms(1) show ?thesis
  proof (cases rule: rnd_nonneg_cases)
    case 2
    from assms(2) 2 have "f64_add (rnd p) (rnd q) = PInf"
      by (cases rule: rnd_nonneg_cases) (simp_all add: f64_add_def)
    with that show ?thesis by blast
  next
    case p: 1
    from assms(2) show ?thesis
    proof (cases rule: rnd_nonneg_cases)
      case 2
      with p have "f64_add (rnd p) (rnd q) = PInf" by (simp add: f64_add_def)
      with that show ?thesis by blast
    next
      case q: 1
      have nn: "0 \<le> fl64 p + fl64 q" using p(2) q(2) by simp
      have e: "f64_add (rnd p) (rnd q) = rnd (fl64 p + fl64 q)"
        using p q by (simp add: f64_add_def)
      from nn show ?thesis
      proof (cases rule: rnd_nonneg_cases)
        case 2
        with e that show ?thesis by simp
      next
        case 1
        have "fl64 (fl64 p + fl64 q) = 0 \<or> p2 (- 1074) \<le> fl64 (fl64 p + fl64 q)"
          using fl64_nonzero_ge [OF nn] by blast
        with 1 e that show ?thesis by simp
      qed
    qed
  qed
qed

lemma fl64_sqrt_eq_0:
  assumes "s = 0 \<or> p2 (- 1074) \<le> s"
  shows "fl64 (sqrt s) = 0 \<longleftrightarrow> s = 0"
proof
  assume "s = 0"
  then show "fl64 (sqrt s) = 0" by (simp add: fl64_0)
next
  assume z: "fl64 (sqrt s) = 0"
  show "s = 0"
  proof (rule ccontr)
    assume "s \<noteq> 0"
    with assms have s: "p2 (- 1074) \<le> s" by simp
    have "p2 (- 537) * p2 (- 537) = p2 (- 1074)" using p2_add [of "- 537" "- 537"] by simp
    then have "(p2 (- 537))\<^sup>2 \<le> s" using s by (simp add: power2_eq_square)
    then have "p2 (- 537) \<le> sqrt s" by (rule real_le_rsqrt)
    moreover have "p2 (- 1075) < p2 (- 537)" by (simp add: p2_less_iff)
    moreover have "0 \<le> sqrt s" using s p2_pos [of "- 1074"] by simp
    ultimately have "\<not> \<bar>sqrt s\<bar> \<le> p2 (- 1075)" by simp
    with z show False by (simp add: fl64_eq_0_iff)
  qed
qed


lemma ang_divisor_zero_iff:
  "ang_divisor accel = Fin 0 \<longleftrightarrow>
     fst accel * fst accel \<le> p2 (- 1075) \<and> fst (snd accel) * fst (snd accel) \<le> p2 (- 1075)"
proof -
  let ?p = "fst accel * fst accel" and ?q = "fst (snd accel) * fst (snd accel)"
  have p: "0 \<le> ?p" and q: "0 \<le> ?q" by simp_all
  have "ang_divisor accel = Fin 0 \<longleftrightarrow> f64_add (rnd ?p) (rnd ?q) = Fin 0"
  using p q
  proof (cases rule: f64_add_squares_cases)
    case 2
    then show ?thesis by (simp add: ang_divisor_def f64_sqrt_def)
  next
    case (1 s)
    then have s: "0 \<le> s" using p2_pos [of "- 1074"] by auto
    have "ang_divisor accel = rnd (sqrt s)"
      using 1 s by (simp add: ang_divisor_def f64_sqrt_def)
    then show ?thesis
      using 1 fl64_sqrt_eq_0 [OF 1(2)] by (simp add: rnd_eq_Fin_0_iff)
  qed
  also have "\<dots> \<longleftrightarrow> fl64 ?p = 0 \<and> fl64 ?q = 0"
    using p q by (rule f64_add_squares_zero_iff)
  also have "\<dots> \<longleftrightarrow> ?p \<le> p2 (- 1075) \<and> ?q \<le> p2 (- 1075)"
    by (simp add: fl64_eq_0_iff)
  finally show ?thesis .
qed

lemma ang_zero_divisor:
  assumes "ang_divisor accel = Fin 0"
  shows "ang accel =
           (if 0 < snd (snd accel) then Some 90
            else if snd (snd accel) < 0 then Some (- 90) else None)"
  using assms by (simp add: ang_def f64_div_def)




lemma ang_vertical: "0 < c \<Longrightarrow> ang (0, 0, c) = Some 90"
proof -
  assume c: "0 < c"
  have "ang_divisor (0, 0, c) = Fin 0" by (simp add: ang_divisor_zero_iff p2_pos less_imp_le)
  from ang_zero_divisor [OF this] c show ?thesis by simp
qed

lemma sqrt_within:
  assumes "0 \<le> lo" and "lo\<^sup>2 < s" and "s < hi\<^sup>2" and "0 \<le> hi"
  shows "lo < sqrt s \<and> sqrt s < hi"
  using assms real_less_rsqrt [of lo s] real_less_lsqrt [of hi s] by simp

lemma ang_first_diagonal: "ang (1 / 200, 0, 1 / 200) = Some 45"
proof -
  define S :: real where "S = 7378697629483821 / 295147905179352825856"
  define D :: real where "D = 5764607523034235 / 1152921504606846976"
  have sq: "fl64 (1 / 200 * (1 / 200)) = S"
    using fl64_normal [of "- 16" "1 / 200 * (1 / 200)" 7378697629483821]
    by (simp add: p2_def S_def)
  have id: "fl64 (S + 0) = S"
    using fl64_normal [of "- 16" "S + 0" 7378697629483821] by (simp add: p2_def S_def)
  have p: "rnd (1 / 200 * (1 / 200)) = Fin S"
    by (simp only: rnd_def sq) (simp add: S_def)
  have z: "rnd (0 * 0) = Fin 0" by (simp add: rnd_0)
  have sum: "f64_add (Fin S) (Fin 0) = Fin S"
    by (simp only: f64_add_def f64.case rnd_def id) (simp add: S_def)
  have b: "D - 1 / 2 ^ 61 < sqrt S \<and> sqrt S < D + 1 / 2 ^ 61"
    by (rule sqrt_within) (simp_all add: power2_eq_square S_def D_def)
  have r: "fl64 (sqrt S) = D"
  proof -
    have lo: "1 / 256 < sqrt S" and hi: "sqrt S < 1 / 128"
      using b by (simp_all add: D_def)
    have 1: "p2 (- 8) \<le> \<bar>sqrt S\<bar>" using lo by (simp add: p2_def)
    have 2: "\<bar>sqrt S\<bar> < p2 (- 8 + 1)" using lo hi by (simp add: p2_def)
    have 3: "\<bar>sqrt S - of_int 5764607523034235 * p2 (- 8 - 52)\<bar> < p2 (- 8 - 53)"
    proof -
      have "\<bar>sqrt S - D\<bar> < 1 / 2 ^ 61" using b by linarith
      then show ?thesis by (simp add: p2_def D_def)
    qed
    from fl64_normal [OF 1 2 _ 3] show ?thesis by (simp add: p2_def D_def)
  qed
  have nn: "\<not> S < 0" by (simp add: S_def)
  have rt: "f64_sqrt (Fin S) = Fin D"
    by (simp only: f64_sqrt_def f64.case nn if_False rnd_def r) (simp add: D_def)
  have q: "fl64 (1 / 200 / D) = 1"
    using fl64_normal [of "- 1" "1 / 200 / D" "2 ^ 53"] by (simp add: p2_def D_def)
  have nz: "D \<noteq> 0" by (simp add: D_def)
  have dv: "f64_div (1 / 200) (Fin D) = Fin 1"
    by (simp only: f64_div_def f64.case nz if_False rnd_def q) simp
  have "fl64 45 = 45"
    using fl64_normal [of 5 45 "45 * 2 ^ 47"] by (simp add: p2_def)
  then have dg: "fl64 (arctan 1 * 180 / pi) = 45" by (simp add: arctan_one)
  show ?thesis
    by (simp only: ang_def ang_divisor_def fst_conv snd_conv p z sum rt dv f64.case dg)
qed

text \<open>
  The float64 operations that \<open>np.arctan(q) * 180/np.pi\<close> applies to an infinite \<open>q\<close>:
  \<open>np.arctan\<close> gives \<open>884279719003555 / 2^49\<close>, the float64 nearest to \<open>pi/2\<close>, and
  \<open>np.pi\<close> is \<open>884279719003555 / 2^48\<close>.
\<close>

lemma right_angle_float64:
  "fl64 (fl64 (884279719003555 / 2 ^ 49 * 180) / (884279719003555 / 2 ^ 48)) = 90"
proof -
  define P :: real where "P = 4974073419394997 / 2 ^ 44"
  have "fl64 (884279719003555 / 2 ^ 49 * 180) = P"
    using fl64_normal [of 8 "884279719003555 / 2 ^ 49 * 180" 4974073419394997]
    by (simp add: p2_def P_def)
  moreover have "fl64 (P / (884279719003555 / 2 ^ 48)) = 90"
    using fl64_normal [of 6 "P / (884279719003555 / 2 ^ 48)" "90 * 2 ^ 46"]
    by (simp add: p2_def P_def)
  ultimately show ?thesis by (simp only:)
qed



section \<open>The loop, call by call\<close>

lemma vh_loop_append:
  "vh_loop i (xs @ ys) s = vh_loop (i + length xs) ys (vh_loop i xs s)"
  by (induction xs arbitrary: i s) simp_all

lemma vh_prefix_0: "vh_prefix stim 0 = vh_init (length stim)"
  by (simp add: vh_prefix_def)

lemma vh_prefix_Suc:
  assumes "i < length stim"
  shows "vh_prefix stim (Suc i) = vh_body i (stim ! i) (vh_prefix stim i)"
proof -
  have "take (Suc i) stim = take i stim @ [stim ! i]"
    using assms by (simp add: take_Suc_conv_app_nth)
  then show ?thesis
    using assms by (simp add: vh_prefix_def vh_loop_append)
qed

lemma vh_prefix_all:
  "vanhees2015_modified stim =
     (ret (vh_prefix stim (length stim)), dbg (vh_prefix stim (length stim)))"
  by (simp add: vanhees2015_modified_def vh_prefix_def Let_def)

lemma ret_vh_body_cases:
  "ret (vh_body i x s) = ret s \<or> (\<exists>e. ret (vh_body i x s) = ret s @ [e])"
  by (simp add: vh_body_def Let_def split: option.splits)

lemma ret_vh_body_seed:
  "ret s = (0, 0) # rest \<Longrightarrow> \<exists>rest'. ret (vh_body i x s) = (0, 0) # rest'"
  using ret_vh_body_cases [of i x s] by auto

lemma ret_vh_loop_seed:
  "ret s = (0, 0) # rest \<Longrightarrow> \<exists>rest'. ret (vh_loop i xs s) = (0, 0) # rest'"
proof (induction xs arbitrary: i s rest)
  case Nil
  then show ?case by simp
next
  case (Cons x xs)
  from ret_vh_body_seed [OF Cons.prems] obtain r where "ret (vh_body i x s) = (0, 0) # r"
    by blast
  from Cons.IH [OF this] show ?case by simp
qed

lemma ret_vh_body:
  "ret (vh_body i x s) =
     (if i mod (fs * seconds_per_update) = 0 \<and> arm_angle_mean_d s \<noteq> None
      then ret s @ [(ts x,
         if np_any_gt (arm_angle_change_hist (vh_body i x s)) arm_angle_threshold then 0 else 1)]
      else ret s)"
  by (auto simp add: vh_body_def Let_def split: option.splits)

lemma mean_d_vh_body_boundary:
  "i mod (fs * seconds_per_update) = 0 \<Longrightarrow>
   arm_angle_mean_d (vh_body i x s) = Some (np_mean (arm_angle_hist (vh_body i x s)))"
  by (auto simp add: vh_body_def Let_def split: option.splits)

lemma vh_body_off_boundary:
  "i mod (fs * seconds_per_update) \<noteq> 0 \<Longrightarrow>
   arm_angle_mean_d (vh_body i x s) = arm_angle_mean_d s \<and>
   arm_angle_change_hist (vh_body i x s) = arm_angle_change_hist s \<and>
   ret (vh_body i x s) = ret s"
  by (auto simp add: vh_body_def Let_def split: option.splits)

lemma mean_d_vh_body_keeps:
  "arm_angle_mean_d s \<noteq> None \<Longrightarrow> arm_angle_mean_d (vh_body i x s) \<noteq> None"
  by (auto simp add: vh_body_def Let_def split: option.splits)

lemma mean_d_vh_prefix:
  "i \<le> length stim \<Longrightarrow> (arm_angle_mean_d (vh_prefix stim i) = None) = (i = 0)"
proof (induction i)
  case 0
  then show ?case by (simp add: vh_prefix_0 vh_init_def)
next
  case (Suc i)
  then have i: "i < length stim" by simp
  show ?case
  proof (cases "i = 0")
    case True
    then show ?thesis
      using i mean_d_vh_body_boundary [of 0 "stim ! 0" "vh_prefix stim 0"]
      by (simp add: vh_prefix_Suc)
  next
    case False
    with Suc i have "arm_angle_mean_d (vh_prefix stim i) \<noteq> None" by simp
    from mean_d_vh_body_keeps [OF this] show ?thesis
      using i by (simp add: vh_prefix_Suc)
  qed
qed

lemma ret_vh_prefix_Suc:
  assumes "i < length stim"
  shows "ret (vh_prefix stim (Suc i)) =
     (if i mod (fs * seconds_per_update) = 0 \<and> 0 < i
      then ret (vh_prefix stim i) @ [(ts (stim ! i),
         if np_any_gt (arm_angle_change_hist (vh_prefix stim (Suc i))) arm_angle_threshold
         then 0 else 1)]
      else ret (vh_prefix stim i))"
  using assms mean_d_vh_prefix [of i stim]
  by (simp add: vh_prefix_Suc ret_vh_body)

lemma ret_times_vh_prefix:
  "i \<le> length stim \<Longrightarrow>
   map fst (ret (vh_prefix stim i)) =
     0 # map (\<lambda>j. ts (stim ! j))
           (filter (\<lambda>j. j mod (fs * seconds_per_update) = 0 \<and> 0 < j) [0..<i])"
proof (induction i)
  case 0
  then show ?case by (simp add: vh_prefix_0 vh_init_def)
next
  case (Suc i)
  then show ?case by (simp add: ret_vh_prefix_Suc)
qed

lemma count_boundaries:
  "0 < w \<Longrightarrow> length (filter (\<lambda>j. j mod w = 0 \<and> 0 < j) [0..<n]) = (n - 1) div w"
proof (induction n)
  case 0
  then show ?case by simp
next
  case (Suc n)
  show ?case
  proof (cases "n = 0")
    case True
    then show ?thesis by simp
  next
    case False
    then obtain m where m: "n = Suc m" by (cases n) auto
    have "Suc m div w = (if Suc m mod w = 0 then Suc (m div w) else m div w)"
      using Suc.prems by (simp add: div_Suc)
    then have step: "n div w = (if n mod w = 0 then Suc ((n - 1) div w) else (n - 1) div w)"
      by (simp add: m)
    have "length (filter (\<lambda>j. j mod w = 0 \<and> 0 < j) [0..<Suc n]) =
          (n - 1) div w + (if n mod w = 0 then 1 else 0)"
      using Suc False by simp
    also have "\<dots> = n div w" using step by simp
    finally show ?thesis by simp
  qed
qed

section \<open>The change history along a run\<close>

lemma div_pred_step:
  "0 < w \<Longrightarrow> 0 < i \<Longrightarrow>
   i div w = (if i mod w = 0 then Suc ((i - 1) div w) else (i - 1) div w)"
  by (cases i) (simp_all add: div_Suc)

lemma mult_less_div_pred:
  assumes "0 < (w::nat)" and "w * k < i"
  shows "k \<le> (i - 1) div w"
proof -
  have "w * k \<le> i - 1" using assms(2) by linarith
  then have "(w * k) div w \<le> (i - 1) div w" by (rule div_le_mono)
  then show ?thesis using assms by simp
qed

lemma push_take:
  assumes "0 < h"
  shows "push x (take h (ys @ replicate h z)) = take h ((x # ys) @ replicate h z)"
proof -
  have "butlast (take h (ys @ replicate h z)) = take (h - 1) (ys @ replicate h z)"
    by (rule butlast_take) simp
  moreover have "x # take (h - 1) (ys @ replicate h z) = take h ((x # ys) @ replicate h z)"
    using assms by (cases h) simp_all
  ultimately show ?thesis by (simp only: push_def)
qed

lemma length_dbg_vh_body: "length (dbg (vh_body i x s)) = length (dbg s)"
  by (simp add: vh_body_def Let_def split: option.splits)

lemma dbg_vh_body_other: "j \<noteq> i \<Longrightarrow> dbg (vh_body i x s) ! j = dbg s ! j"
  by (simp add: vh_body_def Let_def split: option.splits)

lemma length_dbg_vh_prefix: "i \<le> length stim \<Longrightarrow> length (dbg (vh_prefix stim i)) = length stim"
proof (induction i)
  case 0
  then show ?case by (simp add: vh_prefix_0 vh_init_def)
next
  case (Suc i)
  then show ?case by (simp add: vh_prefix_Suc length_dbg_vh_body)
qed

lemma dbg_vh_prefix_stable:
  "i \<le> length stim \<Longrightarrow> j < i \<Longrightarrow> dbg (vh_prefix stim i) ! j = dbg (vh_prefix stim (Suc j)) ! j"
proof (induction i)
  case 0
  then show ?case by simp
next
  case (Suc i)
  show ?case
  proof (cases "j = i")
    case True
    then show ?thesis by simp
  next
    case False
    with Suc.prems have "j < i" by simp
    with Suc have "dbg (vh_prefix stim i) ! j = dbg (vh_prefix stim (Suc j)) ! j" by simp
    then show ?thesis
      using Suc.prems False by (simp add: vh_prefix_Suc dbg_vh_body_other)
  qed
qed

lemma change_hist_vh_body_event:
  assumes "i mod (fs * seconds_per_update) = 0" and "arm_angle_mean_d s \<noteq> None"
    and "i < length (dbg s)"
  shows "arm_angle_change_hist (vh_body i x s) =
           push (d_change (dbg (vh_body i x s) ! i)) (arm_angle_change_hist s)"
  using assms by (auto simp add: vh_body_def Let_def)

lemma change_hist_vh_body_keep:
  assumes "\<not> (i mod (fs * seconds_per_update) = 0 \<and> arm_angle_mean_d s \<noteq> None)"
  shows "arm_angle_change_hist (vh_body i x s) = arm_angle_change_hist s"
  using assms by (auto simp add: vh_body_def Let_def)

lemma window_pos: "0 < fs * seconds_per_update"
  by (simp add: fs_def seconds_per_update_def)

lemma hist_size_pos: "0 < classification_hist_size"
  by (simp add: classification_hist_size_def)

lemma recent_changes_Suc:
  "recent_changes stim (Suc k) = push (window_change stim (Suc k)) (recent_changes stim k)"
  using push_take [OF hist_size_pos, of "window_change stim (Suc k)"
      "rev (map (window_change stim) [1..<Suc k])" "Some 0"]
  by (simp add: recent_changes_def)

lemma change_hist_vh_prefix:
  "i \<le> length stim \<Longrightarrow>
   arm_angle_change_hist (vh_prefix stim i) =
     recent_changes stim ((i - 1) div (fs * seconds_per_update))"
proof (induction i)
  case 0
  then show ?case by (simp add: vh_prefix_0 vh_init_def recent_changes_def)
next
  case (Suc i)
  then have i: "i < length stim" and
    IH: "arm_angle_change_hist (vh_prefix stim i) =
           recent_changes stim ((i - 1) div (fs * seconds_per_update))"
    by simp_all
  have step: "vh_prefix stim (Suc i) = vh_body i (stim ! i) (vh_prefix stim i)"
    using i by (rule vh_prefix_Suc)
  show ?case
  proof (cases "i mod (fs * seconds_per_update) = 0 \<and> 0 < i")
    case False
    have keep: "arm_angle_change_hist (vh_prefix stim (Suc i)) =
                  arm_angle_change_hist (vh_prefix stim i)"
      unfolding step using False i mean_d_vh_prefix [of i stim]
      by (intro change_hist_vh_body_keep) auto
    have "i div (fs * seconds_per_update) = (i - 1) div (fs * seconds_per_update)"
    proof (cases "i = 0")
      case True
      then show ?thesis by simp
    next
      case False
      with \<open>\<not> (i mod (fs * seconds_per_update) = 0 \<and> 0 < i)\<close>
      show ?thesis using div_pred_step [OF window_pos, of i] by simp
    qed
    with keep IH show ?thesis by simp
  next
    case True
    define k where "k = (i - 1) div (fs * seconds_per_update)"
    have idiv: "i div (fs * seconds_per_update) = Suc k"
      using True div_pred_step [OF window_pos, of i] by (simp add: k_def)
    have imul: "fs * seconds_per_update * Suc k = i"
      using True idiv by (metis mult_div_mod_eq add.right_neutral)
    have set: "arm_angle_mean_d (vh_prefix stim i) \<noteq> None"
      using True i mean_d_vh_prefix [of i stim] by simp
    have len: "i < length (dbg (vh_prefix stim i))"
      using i by (simp add: length_dbg_vh_prefix)
    have "arm_angle_change_hist (vh_prefix stim (Suc i)) =
            push (d_change (dbg (vh_prefix stim (Suc i)) ! i))
                 (arm_angle_change_hist (vh_prefix stim i))"
      unfolding step using True set len by (intro change_hist_vh_body_event) simp_all
    moreover have "dbg (vh_prefix stim (length stim)) ! i = dbg (vh_prefix stim (Suc i)) ! i"
      using i by (intro dbg_vh_prefix_stable) simp_all
    then have "d_change (dbg (vh_prefix stim (Suc i)) ! i) = window_change stim (Suc k)"
      unfolding window_change_def vh_prefix_all imul by simp
    ultimately have "arm_angle_change_hist (vh_prefix stim (Suc i)) =
            push (window_change stim (Suc k)) (recent_changes stim k)"
      using IH by (simp add: k_def)
    then show ?thesis by (simp add: recent_changes_Suc idiv)
  qed
qed

lemma length_ret_vh_prefix:
  "i \<le> length stim \<Longrightarrow>
   length (ret (vh_prefix stim i)) = 1 + (i - 1) div (fs * seconds_per_update)"
proof -
  assume "i \<le> length stim"
  then have "length (map fst (ret (vh_prefix stim i))) =
               1 + (i - 1) div (fs * seconds_per_update)"
    by (simp add: ret_times_vh_prefix count_boundaries [OF window_pos])
  then show ?thesis by simp
qed

lemma ret_nth_vh_prefix:
  "i \<le> length stim \<Longrightarrow> 0 < k \<Longrightarrow> fs * seconds_per_update * k < i \<Longrightarrow>
   ret (vh_prefix stim i) ! k =
     (ts (stim ! (fs * seconds_per_update * k)),
      if np_any_gt (recent_changes stim k) arm_angle_threshold then 0 else 1)"
proof (induction i)
  case 0
  then show ?case by simp
next
  case (Suc i)
  then have i: "i < length stim" by simp
  show ?case
  proof (cases "fs * seconds_per_update * k = i")
    case True
    then have b: "i mod (fs * seconds_per_update) = 0 \<and> 0 < i"
      using Suc.prems window_pos by auto
    have "i div (fs * seconds_per_update) = k"
      using True window_pos by auto
    then have k: "(i - 1) div (fs * seconds_per_update) = k - 1"
      using b div_pred_step [OF window_pos, of i] by simp
    have len: "length (ret (vh_prefix stim i)) = k"
      using i Suc.prems k by (simp add: length_ret_vh_prefix)
    have ch: "arm_angle_change_hist (vh_prefix stim (Suc i)) = recent_changes stim k"
      using i \<open>i div (fs * seconds_per_update) = k\<close> change_hist_vh_prefix [of "Suc i" stim]
      by simp
    show ?thesis
      using i b len ch True by (simp add: ret_vh_prefix_Suc nth_append)
  next
    case False
    with Suc.prems have lt: "fs * seconds_per_update * k < i" by simp
    then have "k \<le> (i - 1) div (fs * seconds_per_update)"
      by (intro mult_less_div_pred [OF window_pos])
    then have "k < length (ret (vh_prefix stim i))"
      using i by (simp add: length_ret_vh_prefix)
    moreover have "ret (vh_prefix stim i) ! k =
       (ts (stim ! (fs * seconds_per_update * k)),
        if np_any_gt (recent_changes stim k) arm_angle_threshold then 0 else 1)"
      using Suc lt i by simp
    ultimately show ?thesis
      using i by (simp add: ret_vh_prefix_Suc nth_append)
  qed
qed

lemma event_state_eq:
  assumes "0 < k" and "fs * seconds_per_update * k < length stim"
  shows "event_state stim k =
           (if np_any_gt (recent_changes stim k) arm_angle_threshold then 0 else 1)"
  using assms ret_nth_vh_prefix [of "length stim" stim k]
  by (simp add: event_state_def vh_prefix_all)

lemma np_any_gt_append:
  "np_any_gt (xs @ ys) thr = (np_any_gt xs thr \<or> np_any_gt ys thr)"
  by (simp add: np_any_gt_def)

lemma np_any_gt_zeros:
  "0 \<le> thr \<Longrightarrow> \<not> np_any_gt (take m (replicate n (Some 0))) thr"
  by (simp add: np_any_gt_def list_ex_iff np_gt_def)

lemma np_any_gt_recent:
  "np_any_gt (recent_changes stim k) arm_angle_threshold =
     (\<exists>j. 0 < j \<and> j \<le> k \<and> k < j + classification_hist_size \<and>
          np_gt (window_change stim j) arm_angle_threshold)"
proof -
  let ?c = "window_change stim"
  let ?H = "classification_hist_size"
  let ?xs = "take ?H (rev (map ?c [1..<Suc k]))"
  have thr: "0 \<le> arm_angle_threshold" by (simp add: arm_angle_threshold_def)
  have "recent_changes stim k = ?xs @ take (?H - k) (replicate ?H (Some 0))"
    by (auto simp add: recent_changes_def)
  then have "np_any_gt (recent_changes stim k) arm_angle_threshold =
               np_any_gt ?xs arm_angle_threshold"
    using np_any_gt_zeros [OF thr] by (simp only: np_any_gt_append) simp
  also have "\<dots> = (\<exists>m < length ?xs. np_gt (?xs ! m) arm_angle_threshold)"
    by (simp only: np_any_gt_def list_ex_length)
  also have "\<dots> = (\<exists>m. m < ?H \<and> m < k \<and> np_gt (?c (k - m)) arm_angle_threshold)"
  proof -
    have nth: "?xs ! m = ?c (k - m)" if "m < ?H" "m < k" for m
    proof -
      have "?xs ! m = rev (map ?c [1..<Suc k]) ! m" using that by simp
      also have "\<dots> = map ?c [1..<Suc k] ! (k - Suc m)"
        using that by (subst rev_nth) (simp_all del: upt_Suc)
      also have "\<dots> = ?c (k - m)" using that by (simp del: upt_Suc add: Suc_diff_Suc)
      finally show ?thesis .
    qed
    have len: "length ?xs = min ?H k" by (auto simp add: min_def)
    show ?thesis
    proof
      assume "\<exists>m < length ?xs. np_gt (?xs ! m) arm_angle_threshold"
      then obtain m where m: "m < length ?xs" "np_gt (?xs ! m) arm_angle_threshold" by blast
      from m(1) have "m < ?H" "m < k" unfolding len by simp_all
      with m(2) nth [of m] show "\<exists>m. m < ?H \<and> m < k \<and> np_gt (?c (k - m)) arm_angle_threshold"
        by auto
    next
      assume "\<exists>m. m < ?H \<and> m < k \<and> np_gt (?c (k - m)) arm_angle_threshold"
      then obtain m where m: "m < ?H" "m < k" "np_gt (?c (k - m)) arm_angle_threshold" by blast
      then have "m < length ?xs" unfolding len by simp
      moreover have "np_gt (?xs ! m) arm_angle_threshold" using m nth [of m] by simp
      ultimately show "\<exists>m < length ?xs. np_gt (?xs ! m) arm_angle_threshold" by blast
    qed
  qed
  also have "\<dots> = (\<exists>j. 0 < j \<and> j \<le> k \<and> k < j + ?H \<and> np_gt (?c j) arm_angle_threshold)"
  proof
    assume "\<exists>m. m < ?H \<and> m < k \<and> np_gt (?c (k - m)) arm_angle_threshold"
    then obtain m where "m < ?H" "m < k" "np_gt (?c (k - m)) arm_angle_threshold" by blast
    then have "0 < k - m \<and> k - m \<le> k \<and> k < (k - m) + ?H \<and>
               np_gt (?c (k - m)) arm_angle_threshold" by simp
    then show "\<exists>j. 0 < j \<and> j \<le> k \<and> k < j + ?H \<and> np_gt (?c j) arm_angle_threshold" by blast
  next
    assume "\<exists>j. 0 < j \<and> j \<le> k \<and> k < j + ?H \<and> np_gt (?c j) arm_angle_threshold"
    then obtain j where j: "0 < j" "j \<le> k" "k < j + ?H" "np_gt (?c j) arm_angle_threshold"
      by blast
    then have "k - j < ?H \<and> k - j < k \<and> np_gt (?c (k - (k - j))) arm_angle_threshold"
      by simp
    then show "\<exists>m. m < ?H \<and> m < k \<and> np_gt (?c (k - m)) arm_angle_threshold" by blast
  qed
  finally show ?thesis .
qed

lemma list_ex_gt_iff:
  "np_any_gt xs thr = (\<exists>c. Some c \<in> set xs \<and> thr < c)"
proof -
  have "np_gt a thr = (\<exists>c. a = Some c \<and> thr < c)" for a
    by (cases a) (simp_all add: np_gt_def)
  then show ?thesis by (auto simp add: np_any_gt_def list_ex_iff)
qed

lemma ret_vh_prefix_first_window:
  assumes "i \<le> length stim" and "i \<le> fs * seconds_per_update"
  shows "ret (vh_prefix stim i) = [(0, 0)]"
proof -
  have "(i - 1) div (fs * seconds_per_update) = 0"
    using assms(2) window_pos by (cases i) simp_all
  then have len: "length (ret (vh_prefix stim i)) = 1"
    using assms(1) by (simp add: length_ret_vh_prefix)
  have "ret (vh_init (length stim)) = (0, 0) # []" by (simp add: vh_init_def)
  from ret_vh_loop_seed [OF this] obtain rest where
    "ret (vh_prefix stim i) = (0, 0) # rest"
    unfolding vh_prefix_def by blast
  with len show ?thesis by simp
qed

lemma change_hist_first_window:
  assumes "i \<le> length stim" and "i \<le> fs * seconds_per_update"
  shows "arm_angle_change_hist (vh_prefix stim i) = replicate classification_hist_size (Some 0)"
proof -
  have "(i - 1) div (fs * seconds_per_update) = 0"
    using assms(2) window_pos by (cases i) simp_all
  then show ?thesis
    using assms(1) by (simp add: change_hist_vh_prefix recent_changes_def)
qed

section \<open>The rows of \<open>dbg\<close>\<close>

lemma accel_avgs_vh_body:
  "accel_avgs (vh_body i x s) = ema3 (ax x, ay x, az x) (accel_avgs s) eta"
  by (simp add: vh_body_def Let_def split: option.splits)

lemma arm_angle_hist_vh_body:
  "arm_angle_hist (vh_body i x s) =
     push (ang (accel_avgs (vh_body i x s))) (arm_angle_hist s)"
  by (simp add: vh_body_def Let_def split: option.splits)

lemma arm_angle_mean_d_vh_body:
  "arm_angle_mean_d (vh_body i x s) =
     (if i mod (fs * seconds_per_update) = 0
      then Some (np_mean (arm_angle_hist (vh_body i x s)))
      else arm_angle_mean_d s)"
  by (simp add: vh_body_def Let_def split: option.splits)

lemma dbg_vh_body:
  "dbg (vh_body i x s) =
     (dbg s)[i := \<lparr>d_t = Some (ts x),
        d_ax = Some (fst (accel_avgs (vh_body i x s))),
        d_ay = Some (fst (snd (accel_avgs (vh_body i x s)))),
        d_az = Some (snd (snd (accel_avgs (vh_body i x s)))),
        d_ang = ang (accel_avgs (vh_body i x s)),
        d_mean = (if i mod (fs * seconds_per_update) = 0
                  then np_mean (arm_angle_hist (vh_body i x s)) else None),
        d_change =
          (if i mod (fs * seconds_per_update) = 0
           then (case arm_angle_mean_d s of None \<Rightarrow> None
                 | Some d \<Rightarrow> np_abs (np_sub (np_mean (arm_angle_hist (vh_body i x s))) d))
           else None)\<rparr>]"
  by (cases "arm_angle_mean_d s") (simp_all add: vh_body_def Let_def push_def)

lemma dbg_final_row:
  assumes "j < length stim"
  shows "dbg (vh_prefix stim (length stim)) ! j =
     \<lparr>d_t = Some (ts (stim ! j)),
      d_ax = Some (fst (accel_avgs (vh_prefix stim (Suc j)))),
      d_ay = Some (fst (snd (accel_avgs (vh_prefix stim (Suc j))))),
      d_az = Some (snd (snd (accel_avgs (vh_prefix stim (Suc j))))),
      d_ang = ang (accel_avgs (vh_prefix stim (Suc j))),
      d_mean = (if j mod (fs * seconds_per_update) = 0
                then np_mean (arm_angle_hist (vh_prefix stim (Suc j))) else None),
      d_change =
        (if j mod (fs * seconds_per_update) = 0
         then (case arm_angle_mean_d (vh_prefix stim j) of None \<Rightarrow> None
               | Some d \<Rightarrow> np_abs (np_sub (np_mean (arm_angle_hist (vh_prefix stim (Suc j)))) d))
         else None)\<rparr>"
proof -
  have step: "vh_prefix stim (Suc j) = vh_body j (stim ! j) (vh_prefix stim j)"
    using assms by (rule vh_prefix_Suc)
  have len: "j < length (dbg (vh_prefix stim j))"
    using assms by (simp add: length_dbg_vh_prefix)
  have "dbg (vh_prefix stim (length stim)) ! j = dbg (vh_prefix stim (Suc j)) ! j"
    using assms by (intro dbg_vh_prefix_stable) simp_all
  also have "\<dots> = dbg (vh_body j (stim ! j) (vh_prefix stim j)) ! j"
    by (simp only: step)
  also have "\<dots> =
     \<lparr>d_t = Some (ts (stim ! j)),
      d_ax = Some (fst (accel_avgs (vh_body j (stim ! j) (vh_prefix stim j)))),
      d_ay = Some (fst (snd (accel_avgs (vh_body j (stim ! j) (vh_prefix stim j))))),
      d_az = Some (snd (snd (accel_avgs (vh_body j (stim ! j) (vh_prefix stim j))))),
      d_ang = ang (accel_avgs (vh_body j (stim ! j) (vh_prefix stim j))),
      d_mean = (if j mod (fs * seconds_per_update) = 0
                then np_mean (arm_angle_hist (vh_body j (stim ! j) (vh_prefix stim j))) else None),
      d_change =
        (if j mod (fs * seconds_per_update) = 0
         then (case arm_angle_mean_d (vh_prefix stim j) of None \<Rightarrow> None
               | Some d \<Rightarrow> np_abs (np_sub (np_mean (arm_angle_hist
                     (vh_body j (stim ! j) (vh_prefix stim j)))) d))
         else None)\<rparr>"
    by (subst dbg_vh_body) (use len in \<open>simp only: nth_list_update_eq\<close>)
  finally show ?thesis by (simp only: step)
qed

lemma length_dbg_final: "length (snd (vanhees2015_modified stim)) = length stim"
  by (simp add: vh_prefix_all length_dbg_vh_prefix)

section \<open>The angle window and the window means along a run\<close>

lemma hist_vh_prefix:
  "i \<le> length stim \<Longrightarrow>
   arm_angle_hist (vh_prefix stim i) =
     take (fs * seconds_per_update)
       (rev (map d_ang (take i (snd (vanhees2015_modified stim)))) @
        replicate (fs * seconds_per_update) (Some 0))"
proof (induction i)
  case 0
  then show ?case by (simp add: vh_prefix_0 vh_init_def)
next
  case (Suc i)
  then have i: "i < length stim" by simp
  let ?dbg = "snd (vanhees2015_modified stim)"
  have "i < length ?dbg" using i by (simp add: length_dbg_final)
  then have tk: "take (Suc i) ?dbg = take i ?dbg @ [?dbg ! i]"
    by (rule take_Suc_conv_app_nth)
  have a: "d_ang (?dbg ! i) = ang (accel_avgs (vh_prefix stim (Suc i)))"
    using dbg_final_row [OF i] by (simp add: vh_prefix_all)
  have "arm_angle_hist (vh_prefix stim (Suc i)) =
          push (d_ang (?dbg ! i)) (arm_angle_hist (vh_prefix stim i))"
    unfolding a using i by (simp add: vh_prefix_Suc arm_angle_hist_vh_body)
  also have "\<dots> = take (fs * seconds_per_update)
       ((d_ang (?dbg ! i) # rev (map d_ang (take i ?dbg))) @
        replicate (fs * seconds_per_update) (Some 0))"
    using Suc i by (simp only: push_take [OF window_pos])
  finally show ?case by (simp add: tk)
qed

lemma foldr_np_add_zeros:
  "set xs \<subseteq> {Some 0} \<Longrightarrow> foldr np_add xs (Some 0) = Some 0"
  by (induction xs) (auto simp add: np_add_def)

lemma np_mean_cons_zeros:
  "np_mean (Some v # replicate n (Some 0)) = Some (v / real (Suc n))"
proof -
  have "foldr np_add (replicate n (Some 0)) (Some 0) = Some 0"
    by (rule foldr_np_add_zeros) auto
  then show ?thesis
    by (simp add: np_mean_def np_add_def del: foldr_replicate)
qed

lemma butlast_replicate_eq: "butlast (replicate n x) = replicate (n - 1) x"
proof (cases n)
  case 0
  then show ?thesis by simp
next
  case (Suc m)
  have "replicate (Suc m) x = replicate m x @ [x]"
    by (simp add: replicate_append_same)
  then show ?thesis unfolding Suc by (simp only: butlast_snoc diff_Suc_1)
qed

lemma d_mean_final:
  assumes "i < length stim" and "i mod (fs * seconds_per_update) = 0"
  shows "d_mean (snd (vanhees2015_modified stim) ! i) =
           np_mean (take (fs * seconds_per_update)
             (rev (map d_ang (take (Suc i) (snd (vanhees2015_modified stim)))) @
              replicate (fs * seconds_per_update) (Some 0)))"
proof -
  have "d_mean (snd (vanhees2015_modified stim) ! i) =
          np_mean (arm_angle_hist (vh_prefix stim (Suc i)))"
    using assms dbg_final_row [OF assms(1)] by (simp add: vh_prefix_all)
  then show ?thesis
    using assms(1) hist_vh_prefix [of "Suc i" stim] by simp
qed

lemma pred_mult_div:
  "0 < (w::nat) \<Longrightarrow> 0 < k \<Longrightarrow> (w * k - 1) div w = k - 1"
proof -
  assume w: "0 < w" and k: "0 < k"
  then have pos: "0 < w * k" by simp
  have "(w * k) div w = k" using w by simp
  with div_pred_step [OF w pos] show ?thesis by simp
qed

lemma d_mean_boundary_row:
  assumes "j < length stim" and "j mod (fs * seconds_per_update) = 0"
  shows "d_mean (snd (vanhees2015_modified stim) ! j) =
           np_mean (arm_angle_hist (vh_prefix stim (Suc j)))"
  using assms dbg_final_row [OF assms(1)] by (simp add: vh_prefix_all)

lemma mean_d_vh_prefix_value:
  "i \<le> length stim \<Longrightarrow> 0 < i \<Longrightarrow>
   arm_angle_mean_d (vh_prefix stim i) =
     Some (d_mean (snd (vanhees2015_modified stim) !
             (fs * seconds_per_update * ((i - 1) div (fs * seconds_per_update)))))"
proof (induction i)
  case 0
  then show ?case by simp
next
  case (Suc i)
  then have i: "i < length stim" by simp
  let ?W = "fs * seconds_per_update"
  have step: "arm_angle_mean_d (vh_prefix stim (Suc i)) =
      (if i mod ?W = 0 then Some (np_mean (arm_angle_hist (vh_prefix stim (Suc i))))
       else arm_angle_mean_d (vh_prefix stim i))"
    using i by (simp add: vh_prefix_Suc arm_angle_mean_d_vh_body)
  show ?case
  proof (cases "i mod ?W = 0")
    case True
    then have "?W * (i div ?W) = i" by (metis mult_div_mod_eq add.right_neutral)
    with True show ?thesis
      unfolding step using d_mean_boundary_row [OF i True] by simp
  next
    case False
    then have pos: "0 < i" by (cases i) simp_all
    have "i div ?W = (i - 1) div ?W"
      using False div_pred_step [OF window_pos pos] by simp
    with False Suc.IH i pos show ?thesis unfolding step by simp
  qed
qed

lemma window_change_means:
  assumes "0 < k" and "fs * seconds_per_update * k < length stim"
  shows "window_change stim k =
           np_abs (np_sub (d_mean (snd (vanhees2015_modified stim) ! (fs * seconds_per_update * k)))
                          (d_mean (snd (vanhees2015_modified stim) !
                             (fs * seconds_per_update * (k - 1)))))"
proof -
  let ?W = "fs * seconds_per_update"
  let ?dbg = "snd (vanhees2015_modified stim)"
  have b: "(?W * k) mod ?W = 0" by simp
  have pos: "0 < ?W * k" using assms(1) window_pos by simp
  have prev: "arm_angle_mean_d (vh_prefix stim (?W * k)) = Some (d_mean (?dbg ! (?W * (k - 1))))"
    using mean_d_vh_prefix_value [of "?W * k" stim] assms(2) pos
      pred_mult_div [OF window_pos assms(1)] by simp
  have "window_change stim k = d_change (dbg (vh_prefix stim (length stim)) ! (?W * k))"
    by (simp add: window_change_def vh_prefix_all)
  also have "\<dots> = np_abs (np_sub (np_mean (arm_angle_hist (vh_prefix stim (Suc (?W * k)))))
                               (d_mean (?dbg ! (?W * (k - 1)))))"
    unfolding dbg_final_row [OF assms(2)] using b prev by simp
  finally show ?thesis
    using d_mean_boundary_row [OF assms(2) b] by simp
qed

lemma foldr_np_add_replicate:
  "foldr np_add (replicate n (Some v)) (Some 0) = Some (real n * v)"
  by (induction n) (simp_all add: np_add_def algebra_simps del: foldr_replicate)

lemma np_mean_replicate:
  "0 < n \<Longrightarrow> np_mean (replicate n (Some v)) = Some v"
  using foldr_np_add_replicate [of n v] by (simp add: np_mean_def del: foldr_replicate)

section \<open>A stream with the arm held vertical\<close>

lemma vertical_avgs:
  assumes "\<forall>x \<in> set stim. ax x = 0 \<and> ay x = 0 \<and> az x = 1"
  shows "i \<le> length stim \<Longrightarrow>
         fst (accel_avgs (vh_prefix stim i)) = 0 \<and>
         fst (snd (accel_avgs (vh_prefix stim i))) = 0 \<and>
         0 \<le> snd (snd (accel_avgs (vh_prefix stim i))) \<and>
         (0 < i \<longrightarrow> 0 < snd (snd (accel_avgs (vh_prefix stim i))))"
proof (induction i)
  case 0
  then show ?case by (simp add: vh_prefix_0 vh_init_def)
next
  case (Suc i)
  then have i: "i < length stim" by simp
  from Suc i obtain c where a: "accel_avgs (vh_prefix stim i) = (0, 0, c)" and c: "0 \<le> c"
    by (cases "accel_avgs (vh_prefix stim i)") auto
  have x: "ax (stim ! i) = 0" "ay (stim ! i) = 0" "az (stim ! i) = 1"
    using assms i by simp_all
  have "accel_avgs (vh_prefix stim (Suc i)) = (0, 0, c + eta * (1 - c))"
    using i by (simp add: vh_prefix_Suc accel_avgs_vh_body ema3_def ema_def a x)
  moreover have "0 < c + eta * (1 - c)"
  proof -
    have "c + eta * (1 - c) = (1 - eta) * c + eta" by (simp add: algebra_simps)
    moreover have "0 \<le> (1 - eta) * c" using c by (simp add: eta_def)
    moreover have "0 < eta" by (simp add: eta_def)
    ultimately show ?thesis by linarith
  qed
  ultimately show ?case by simp
qed

lemma vertical_ang:
  assumes "\<forall>x \<in> set stim. ax x = 0 \<and> ay x = 0 \<and> az x = 1" and "j < length stim"
  shows "d_ang (snd (vanhees2015_modified stim) ! j) = Some 90"
proof -
  from vertical_avgs [OF assms(1), of "Suc j"] assms(2)
  obtain c where a: "accel_avgs (vh_prefix stim (Suc j)) = (0, 0, c)" and c: "0 < c"
    by (cases "accel_avgs (vh_prefix stim (Suc j))") auto
  have "d_ang (snd (vanhees2015_modified stim) ! j) = ang (accel_avgs (vh_prefix stim (Suc j)))"
    using dbg_final_row [OF assms(2)] by (simp add: vh_prefix_all)
  with a c show ?thesis by (simp add: ang_vertical)
qed

lemma vertical_angles:
  assumes "\<forall>x \<in> set stim. ax x = 0 \<and> ay x = 0 \<and> az x = 1" and "i \<le> length stim"
  shows "map d_ang (take i (snd (vanhees2015_modified stim))) = replicate i (Some 90)"
proof (rule nth_equalityI)
  show "length (map d_ang (take i (snd (vanhees2015_modified stim)))) =
        length (replicate i (Some (90::real)))"
    using assms(2) by (simp add: length_dbg_final)
next
  fix j assume "j < length (map d_ang (take i (snd (vanhees2015_modified stim))))"
  then have j: "j < i" by simp
  then have "j < length stim" using assms(2) by simp
  from vertical_ang [OF assms(1) this] j assms(2)
  show "map d_ang (take i (snd (vanhees2015_modified stim))) ! j = replicate i (Some 90) ! j"
    by (simp add: length_dbg_final)
qed

lemma vertical_mean:
  assumes "\<forall>x \<in> set stim. ax x = 0 \<and> ay x = 0 \<and> az x = 1"
    and "j < length stim" and "j mod (fs * seconds_per_update) = 0"
  shows "d_mean (snd (vanhees2015_modified stim) ! j) = (if j = 0 then Some (9 / 5) else Some 90)"
proof -
  let ?W = "fs * seconds_per_update"
  have a: "map d_ang (take (Suc j) (snd (vanhees2015_modified stim))) =
             replicate (Suc j) (Some 90)"
    using assms(1,2) by (intro vertical_angles) simp_all
  have m: "d_mean (snd (vanhees2015_modified stim) ! j) =
      np_mean (take ?W (replicate (Suc j) (Some 90) @ replicate ?W (Some 0)))"
    using d_mean_final [OF assms(2,3)] by (simp only: a rev_replicate)
  show ?thesis
  proof (cases "j = 0")
    case True
    have "take ?W (replicate (Suc 0) (Some 90) @ replicate ?W (Some (0::real))) =
          Some 90 # replicate 49 (Some 0)"
      by (simp add: fs_def seconds_per_update_def)
    then have "d_mean (snd (vanhees2015_modified stim) ! j) =
                 np_mean (Some 90 # replicate 49 (Some 0))"
      using True m by (simp only:)
    then show ?thesis using True np_mean_cons_zeros [of 90 49] by simp
  next
    case False
    with assms(3) have "?W \<le> j" by (auto elim: dvdE simp add: mod_eq_0_iff_dvd)
    then have "take ?W (replicate (Suc j) (Some 90) @ replicate ?W (Some (0::real))) =
               replicate ?W (Some 90)"
      by (simp only: take_append length_replicate take_replicate) (simp add: min_def)
    then have "d_mean (snd (vanhees2015_modified stim) ! j) = np_mean (replicate ?W (Some 90))"
      using m by (simp only:)
    then show ?thesis using False np_mean_replicate [OF window_pos, of 90] by simp
  qed
qed

lemma vertical_window_change:
  assumes "\<forall>x \<in> set stim. ax x = 0 \<and> ay x = 0 \<and> az x = 1"
    and "0 < k" and "fs * seconds_per_update * k < length stim"
  shows "window_change stim k = (if k = 1 then Some (441 / 5) else Some 0)"
proof -
  let ?W = "fs * seconds_per_update"
  have cur: "d_mean (snd (vanhees2015_modified stim) ! (?W * k)) = Some 90"
    using vertical_mean [OF assms(1,3)] assms(2) window_pos by simp
  have lt: "?W * (k - 1) < length stim"
  proof -
    have "?W * (k - 1) \<le> ?W * k" by simp
    with assms(3) show ?thesis by linarith
  qed
  have prev: "d_mean (snd (vanhees2015_modified stim) ! (?W * (k - 1))) =
                (if k = 1 then Some (9 / 5) else Some 90)"
    using vertical_mean [OF assms(1) lt] assms(2) window_pos by auto
  show ?thesis
    unfolding window_change_means [OF assms(2,3)] cur prev
    by (simp add: np_abs_def np_sub_def)
qed

section \<open>Streams of one row\<close>

lemma first_row_diagonal:
  "snd (vanhees2015_modified [\<lparr>ts = 0, ax = 1, ay = 0, az = 1, label = 0\<rparr>]) ! 0 =
     \<lparr>d_t = Some 0, d_ax = Some (1 / 200), d_ay = Some 0, d_az = Some (1 / 200),
      d_ang = Some 45, d_mean = Some (9 / 10), d_change = None\<rparr>"
proof -
  let ?stim = "[\<lparr>ts = 0, ax = 1, ay = 0, az = 1, label = 0\<rparr>]"
  have a: "accel_avgs (vh_prefix ?stim (Suc 0)) = (1 / 200, 0, 1 / 200)"
    by (simp add: vh_prefix_def accel_avgs_vh_body vh_init_def ema3_def ema_def eta_def)
  have g: "ang (1 / 200, 0, 1 / 200) = Some 45"
    by (rule ang_first_diagonal)
  have h: "arm_angle_hist (vh_prefix ?stim (Suc 0)) =
             Some 45 # replicate (fs * seconds_per_update - 1) (Some 0)"
    by (simp add: vh_prefix_def arm_angle_hist_vh_body accel_avgs_vh_body vh_init_def
        ema3_def ema_def eta_def g push_def butlast_replicate_eq)
  have m: "np_mean (arm_angle_hist (vh_prefix ?stim (Suc 0))) = Some (9 / 10)"
    unfolding h np_mean_cons_zeros by (simp add: fs_def seconds_per_update_def)
  have p0: "arm_angle_mean_d (vh_prefix ?stim 0) = None"
    by (simp add: vh_prefix_0 vh_init_def)
  show ?thesis
    using dbg_final_row [of 0 ?stim] by (simp add: vh_prefix_all a g m p0)
qed





section \<open>The resampler, step by step\<close>

lemma length_linspace: "length (linspace a b n) = n"
  by (simp add: linspace_def)

lemma length_grid: "length (grid accel0) = nat (grid_N accel0)"
  by (simp add: grid_def length_linspace)

lemma hold_loop_Inl: "hold_loop truth xs = Inl e \<Longrightarrow> e = IndexError"
  by (induction xs arbitrary: e) (auto split: list.splits sum.splits)

lemma hold_loop_Inr:
  "hold_loop truth xs = Inr ls \<Longrightarrow>
   length ls = length xs \<and>
   (\<forall>j < length xs. filter (\<lambda>r. fst r < xs ! j) truth \<noteq> [] \<and>
        ls ! j = snd (last (filter (\<lambda>r. fst r < xs ! j) truth)))"
proof (induction xs arbitrary: ls)
  case Nil
  then show ?case by simp
next
  case (Cons x xs)
  from Cons.prems obtain ls' where
    sel: "filter (\<lambda>r. fst r < x) truth \<noteq> []"
    and rec: "hold_loop truth xs = Inr ls'"
    and ls: "ls = snd (last (filter (\<lambda>r. fst r < x) truth)) # ls'"
    by (auto split: list.splits sum.splits)
  from Cons.IH [OF rec] have
    len: "length ls' = length xs" and
    nth: "\<forall>j < length xs. filter (\<lambda>r. fst r < xs ! j) truth \<noteq> [] \<and>
        ls' ! j = snd (last (filter (\<lambda>r. fst r < xs ! j) truth))"
    by simp_all
  show ?case
  proof (intro conjI allI impI)
    show "length ls = length (x # xs)" using len ls by simp
  next
    fix j assume "j < length (x # xs)"
    then show "filter (\<lambda>r. fst r < (x # xs) ! j) truth \<noteq> []"
      using sel nth by (cases j) simp_all
  next
    fix j assume "j < length (x # xs)"
    then show "ls ! j = snd (last (filter (\<lambda>r. fst r < (x # xs) ! j) truth))"
      using ls nth by (cases j) simp_all
  qed
qed

lemma hold_loop_succeeds:
  "(\<forall>x \<in> set xs. filter (\<lambda>r. fst r < x) truth \<noteq> []) \<Longrightarrow> \<exists>ls. hold_loop truth xs = Inr ls"
  by (induction xs) (auto split: list.splits sum.splits)

lemma hold_loop_fails:
  "x \<in> set xs \<Longrightarrow> filter (\<lambda>r. fst r < x) truth = [] \<Longrightarrow> hold_loop truth xs = Inl IndexError"
proof (induction xs)
  case Nil
  then show ?case by simp
next
  case (Cons y ys)
  show ?case
  proof (cases "filter (\<lambda>r. fst r < y) truth")
    case Nil
    then show ?thesis by simp
  next
    case (Cons r rs)
    with Cons.prems \<open>filter (\<lambda>r. fst r < y) truth = r # rs\<close> have "x \<in> set ys" by auto
    from Cons.IH [OF this Cons.prems(2)] Cons show ?thesis by simp
  qed
qed

lemma stimuli_unfold:
  "stimuli accel0 truth =
     (if trimmed accel0 = [] then Inl IndexError
      else if grid_N accel0 < 0 then Inl ValueError
      else if length truth < 2 \<or> nat (grid_N accel0) = 0 then Inl IndexError
      else (case hold_loop truth (tl (grid accel0)) of
              Inl e \<Rightarrow> Inl e
            | Inr ls \<Rightarrow>
                Inr (map (\<lambda>i. \<lparr>ts = grid accel0 ! i,
                      ax = interp (grid accel0 ! i)
                             (zip (map fst (trimmed accel0)) (map (\<lambda>r. fst (snd r)) (trimmed accel0))),
                      ay = interp (grid accel0 ! i)
                             (zip (map fst (trimmed accel0)) (map (\<lambda>r. fst (snd (snd r))) (trimmed accel0))),
                      az = interp (grid accel0 ! i)
                             (zip (map fst (trimmed accel0)) (map (\<lambda>r. snd (snd (snd r))) (trimmed accel0))),
                      label = (snd (hd truth) # ls) ! i\<rparr>)
                    [0..<nat (grid_N accel0)])))"
proof -
  have nth: "map f (grid accel0) ! i = f (grid accel0 ! i)"
    if "i \<in> set [0..<nat (grid_N accel0)]" for i and f :: "real \<Rightarrow> real"
    using that by (simp add: length_grid)
  show ?thesis
    unfolding stimuli_def Let_def trimmed_def [symmetric] grid_N_def [symmetric]
      grid_def [symmetric]
    by (auto split: sum.splits simp add: nth cong: map_cong)
qed

lemma stimuli_Inr_D:
  assumes "stimuli accel0 truth = Inr rows"
  obtains ls where "trimmed accel0 \<noteq> []" and "1 \<le> grid_N accel0" and "2 \<le> length truth"
    and "hold_loop truth (tl (grid accel0)) = Inr ls"
    and "rows = map (\<lambda>i. \<lparr>ts = grid accel0 ! i,
                      ax = interp (grid accel0 ! i)
                             (zip (map fst (trimmed accel0)) (map (\<lambda>r. fst (snd r)) (trimmed accel0))),
                      ay = interp (grid accel0 ! i)
                             (zip (map fst (trimmed accel0)) (map (\<lambda>r. fst (snd (snd r))) (trimmed accel0))),
                      az = interp (grid accel0 ! i)
                             (zip (map fst (trimmed accel0)) (map (\<lambda>r. snd (snd (snd r))) (trimmed accel0))),
                      label = (snd (hd truth) # ls) ! i\<rparr>)
                    [0..<nat (grid_N accel0)]"
proof -
  from assms have a: "trimmed accel0 \<noteq> []" and b: "\<not> grid_N accel0 < 0"
    and c: "\<not> (length truth < 2 \<or> nat (grid_N accel0) = 0)"
    by (auto simp add: stimuli_unfold split: if_splits)
  from b c have n: "1 \<le> grid_N accel0" by simp
  from assms a b c obtain ls where "hold_loop truth (tl (grid accel0)) = Inr ls"
    and "rows = map (\<lambda>i. \<lparr>ts = grid accel0 ! i,
                      ax = interp (grid accel0 ! i)
                             (zip (map fst (trimmed accel0)) (map (\<lambda>r. fst (snd r)) (trimmed accel0))),
                      ay = interp (grid accel0 ! i)
                             (zip (map fst (trimmed accel0)) (map (\<lambda>r. fst (snd (snd r))) (trimmed accel0))),
                      az = interp (grid accel0 ! i)
                             (zip (map fst (trimmed accel0)) (map (\<lambda>r. snd (snd (snd r))) (trimmed accel0))),
                      label = (snd (hd truth) # ls) ! i\<rparr>)
                    [0..<nat (grid_N accel0)]"
    by (simp add: stimuli_unfold split: sum.splits)
  moreover from c have "2 \<le> length truth" by simp
  ultimately show ?thesis using a n that by blast
qed

lemma grid_N_spec:
  "trimmed accel0 \<noteq> [] \<Longrightarrow>
   grid_N accel0 =
     \<lfloor>fl64 (fl64 (fst (last (trimmed accel0)) - fst (hd (trimmed accel0))) / fl64 (1 / real fs))\<rfloor>"
  by (simp add: grid_N_def hd_map last_map)

lemma set_tl_grid:
  assumes "x \<in> set (tl (grid accel0))"
  shows "\<exists>i. 1 \<le> i \<and> i < nat (grid_N accel0) \<and> x = grid accel0 ! i"
proof -
  from assms obtain j where j: "j < length (tl (grid accel0))" and x: "x = tl (grid accel0) ! j"
    by (auto simp add: in_set_conv_nth)
  from j have "Suc j < nat (grid_N accel0)" by (simp add: length_grid)
  moreover from j x have "x = grid accel0 ! Suc j" by (simp add: nth_tl)
  ultimately show ?thesis by (intro exI [of _ "Suc j"]) simp
qed

lemma stimuli_succeeds:
  assumes "trimmed accel0 \<noteq> []" and "1 \<le> grid_N accel0" and "2 \<le> length truth"
    and "\<forall>i. 1 \<le> i \<and> i < nat (grid_N accel0) \<longrightarrow> (\<exists>r \<in> set truth. fst r < grid accel0 ! i)"
  shows "\<exists>rows. stimuli accel0 truth = Inr rows"
proof -
  have "\<forall>x \<in> set (tl (grid accel0)). filter (\<lambda>r. fst r < x) truth \<noteq> []"
  proof
    fix x assume "x \<in> set (tl (grid accel0))"
    from set_tl_grid [OF this] assms(4) have "\<exists>r \<in> set truth. fst r < x" by blast
    then show "filter (\<lambda>r. fst r < x) truth \<noteq> []" by (simp add: filter_empty_conv)
  qed
  from hold_loop_succeeds [OF this] obtain ls where
    "hold_loop truth (tl (grid accel0)) = Inr ls" by blast
  with assms(1-3) show ?thesis by (simp add: stimuli_unfold)
qed

lemma stimuli_labels:
  assumes "stimuli accel0 truth = Inr rows"
  shows "rows \<noteq> []" and "label (rows ! 0) = snd (hd truth)"
    and "\<And>i. 1 \<le> i \<Longrightarrow> i < length rows \<Longrightarrow>
          filter (\<lambda>r. fst r < ts (rows ! i)) truth \<noteq> [] \<and>
          label (rows ! i) = snd (last (filter (\<lambda>r. fst r < ts (rows ! i)) truth))"
proof -
  from assms obtain ls where n: "1 \<le> grid_N accel0"
    and hl: "hold_loop truth (tl (grid accel0)) = Inr ls"
    and rows: "rows = map (\<lambda>i. \<lparr>ts = grid accel0 ! i,
                      ax = interp (grid accel0 ! i)
                             (zip (map fst (trimmed accel0)) (map (\<lambda>r. fst (snd r)) (trimmed accel0))),
                      ay = interp (grid accel0 ! i)
                             (zip (map fst (trimmed accel0)) (map (\<lambda>r. fst (snd (snd r))) (trimmed accel0))),
                      az = interp (grid accel0 ! i)
                             (zip (map fst (trimmed accel0)) (map (\<lambda>r. snd (snd (snd r))) (trimmed accel0))),
                      label = (snd (hd truth) # ls) ! i\<rparr>)
                    [0..<nat (grid_N accel0)]"
    by (rule stimuli_Inr_D)
  have len: "length rows = nat (grid_N accel0)" by (simp add: rows)
  show "rows \<noteq> []" using len n by auto
  show "label (rows ! 0) = snd (hd truth)" using n by (simp add: rows)
  fix i assume i: "1 \<le> i" "i < length rows"
  then obtain j where j: "i = Suc j" by (cases i) auto
  have jl: "j < length (tl (grid accel0))" using i len j by (simp add: length_grid)
  have tj: "tl (grid accel0) ! j = ts (rows ! i)"
    using i len j by (simp add: rows nth_tl length_grid)
  from hold_loop_Inr [OF hl] jl have
    "filter (\<lambda>r. fst r < tl (grid accel0) ! j) truth \<noteq> [] \<and>
     ls ! j = snd (last (filter (\<lambda>r. fst r < tl (grid accel0) ! j) truth))"
    by blast
  moreover have "label (rows ! i) = ls ! j" using i len j by (simp add: rows)
  ultimately show "filter (\<lambda>r. fst r < ts (rows ! i)) truth \<noteq> [] \<and>
          label (rows ! i) = snd (last (filter (\<lambda>r. fst r < ts (rows ! i)) truth))"
    by (simp add: tj)
qed

lemma sorted_le_last:
  "sorted xs \<Longrightarrow> (x :: real) \<in> set xs \<Longrightarrow> x \<le> last xs"
  by (induction xs) auto

lemma last_filter_latest:
  fixes truth :: "(real \<times> real) list"
  assumes "sorted (map fst truth)" and "r \<in> set truth" and "fst r < x"
  shows "fst r \<le> fst (last (filter (\<lambda>r. fst r < x) truth))"
proof -
  let ?sel = "filter (\<lambda>r. fst r < x) truth"
  have "sorted (map fst ?sel)" using assms(1) by (rule sorted_filter)
  moreover have "fst r \<in> set (map fst ?sel)" using assms(2,3) by auto
  ultimately have "fst r \<le> last (map fst ?sel)" by (rule sorted_le_last)
  moreover have "?sel \<noteq> []" using assms(2,3) by (auto simp add: filter_empty_conv)
  ultimately show ?thesis by (simp add: last_map)
qed

lemma stimuli_label_in_truth:
  assumes "stimuli accel0 truth = Inr rows" and "i < length rows"
  shows "label (rows ! i) \<in> snd ` set truth"
proof (cases i)
  case 0
  from assms(1) obtain ls where "2 \<le> length truth" by (rule stimuli_Inr_D)
  then have "truth \<noteq> []" by auto
  then show ?thesis using 0 stimuli_labels(2) [OF assms(1)] by simp
next
  case (Suc j)
  then have "1 \<le> i" by simp
  from stimuli_labels(3) [OF assms(1) this assms(2)] have
    sel: "filter (\<lambda>r. fst r < ts (rows ! i)) truth \<noteq> []" and
    l: "label (rows ! i) = snd (last (filter (\<lambda>r. fst r < ts (rows ! i)) truth))"
    by simp_all
  have "last (filter (\<lambda>r. fst r < ts (rows ! i)) truth) \<in> set truth"
    using last_in_set [OF sel] by auto
  then show ?thesis unfolding l by (rule imageI)
qed

section \<open>The number of rows on some streams\<close>

lemma grid_N_two_rows:
  assumes "0 \<le> a" and "0 \<le> b"
  shows "grid_N [(a, x1, y1, z1), (b, x2, y2, z2)] = \<lfloor>fl64 (fl64 (b - a) / fl64 (1 / 10))\<rfloor>"
  using assms by (simp add: grid_N_def trimmed_def fs_def)

lemma stimuli_short_motion_file:
  assumes "length accel0 < 2"
  shows "stimuli accel0 truth = Inl IndexError"
proof (cases accel0)
  case Nil
  then show ?thesis by (simp add: stimuli_unfold trimmed_def)
next
  case (Cons r rs)
  with assms have a: "accel0 = [r]" by simp
  show ?thesis
  proof (cases "0 \<le> fst r")
    case False
    then show ?thesis by (simp add: stimuli_unfold trimmed_def a)
  next
    case True
    then have "grid_N accel0 = 0"
      by (simp add: grid_N_def trimmed_def a fl64_0)
    then show ?thesis using True by (simp add: stimuli_unfold trimmed_def a)
  qed
qed

lemma grid_two_rows:
  assumes "0 \<le> a" and "0 \<le> b"
  shows "grid [(a, x1, y1, z1), (b, x2, y2, z2)] =
           linspace a (a + real_of_int (grid_N [(a, x1, y1, z1), (b, x2, y2, z2)]) / 10)
             (nat (grid_N [(a, x1, y1, z1), (b, x2, y2, z2)]))"
  using assms by (simp add: grid_def trimmed_def fs_def)

lemma fl64_tenth: "fl64 (1 / 10) = 3602879701896397 / 36028797018963968"
  using fl64_normal [of "- 4" "1 / 10" 7205759403792794] by (simp add: p2_def)

lemma quotient_fifth: "\<lfloor>fl64 (fl64 (1 / 5) / fl64 (1 / 10))\<rfloor> = 2"
proof -
  define C :: real where "C = 3602879701896397 / 36028797018963968"
  define A :: real where "A = 3602879701896397 / 18014398509481984"
  have c: "fl64 (1 / 10) = C" by (simp add: fl64_tenth C_def)
  have a: "fl64 (1 / 5) = A"
    using fl64_normal [of "- 3" "1 / 5" 7205759403792794] by (simp add: p2_def A_def)
  have q: "fl64 (A / C) = 2"
    using fl64_normal [of 1 "A / C" "2 ^ 52"] by (simp add: p2_def A_def C_def)
  show ?thesis by (simp only: a c q) simp
qed

lemma quotient_twentieth: "\<lfloor>fl64 (fl64 (1 / 20) / fl64 (1 / 10))\<rfloor> = 0"
proof -
  define C :: real where "C = 3602879701896397 / 36028797018963968"
  define A :: real where "A = 3602879701896397 / 72057594037927936"
  have c: "fl64 (1 / 10) = C" by (simp add: fl64_tenth C_def)
  have a: "fl64 (1 / 20) = A"
    using fl64_normal [of "- 5" "1 / 20" 7205759403792794] by (simp add: p2_def A_def)
  have q: "fl64 (A / C) = 1 / 2"
    using fl64_normal [of "- 1" "A / C" "2 ^ 52"] by (simp add: p2_def A_def C_def)
  show ?thesis by (simp only: a c q) simp
qed

lemma quotient_backwards: "\<lfloor>fl64 (fl64 (- 1) / fl64 (1 / 10))\<rfloor> = - 10"
proof -
  define C :: real where "C = 3602879701896397 / 36028797018963968"
  have c: "fl64 (1 / 10) = C" by (simp add: fl64_tenth C_def)
  have a: "fl64 (- 1) = - 1"
    using fl64_normal [of 0 "- 1" "- (2 ^ 52)"] by (simp add: p2_def)
  have q: "fl64 (- 1 / C) = - 10"
    using fl64_normal [of 3 "- 1 / C" "- 10 * 2 ^ 49"] by (simp add: p2_def C_def)
  show ?thesis by (simp only: a c q) simp
qed

lemma grid_N_fifth: "grid_N [(0, 0, 0, 1), (1 / 5, 1, 0, 1)] = 2"
  by (simp only: grid_N_two_rows [of 0 "1 / 5", simplified] quotient_fifth)

lemma stimuli_two_samples:
  "stimuli [(0, 0, 0, 1), (1 / 5, 1, 0, 1)] [(0, 0), (1 / 10, 2), (30, 1)] =
     Inr [\<lparr>ts = 0, ax = 0, ay = 0, az = 1, label = 0\<rparr>,
          \<lparr>ts = 1 / 5, ax = 1, ay = 0, az = 1, label = 2\<rparr>]"
proof -
  have g: "grid [(0, 0, 0, 1), (1 / 5, 1, 0, 1)] = [0, 1 / 5]"
    by (simp add: grid_two_rows grid_N_fifth linspace_def upt_rec)
  have t: "trimmed [(0, 0, 0, 1), (1 / 5, 1, 0, 1)] = [(0, 0, 0, 1), (1 / 5, 1, 0, 1)]"
    by (simp add: trimmed_def)
  show ?thesis
    by (simp add: stimuli_unfold grid_N_fifth g t upt_rec)
qed

lemma stimuli_late_label:
  "stimuli [(0, 0, 0, 1), (1 / 5, 1, 0, 1)] [(1 / 20, 3), (30, 1)] =
     Inr [\<lparr>ts = 0, ax = 0, ay = 0, az = 1, label = 3\<rparr>,
          \<lparr>ts = 1 / 5, ax = 1, ay = 0, az = 1, label = 3\<rparr>]"
proof -
  have g: "grid [(0, 0, 0, 1), (1 / 5, 1, 0, 1)] = [0, 1 / 5]"
    by (simp add: grid_two_rows grid_N_fifth linspace_def upt_rec)
  have t: "trimmed [(0, 0, 0, 1), (1 / 5, 1, 0, 1)] = [(0, 0, 0, 1), (1 / 5, 1, 0, 1)]"
    by (simp add: trimmed_def)
  show ?thesis
    by (simp add: stimuli_unfold grid_N_fifth g t upt_rec)
qed

lemma grid_N_twentieth: "grid_N [(0, 0, 0, 1), (1 / 20, 0, 0, 1)] = 0"
  by (simp only: grid_N_two_rows [of 0 "1 / 20", simplified] quotient_twentieth)

lemma grid_N_backwards: "grid_N [(1, 0, 0, 1), (0, 0, 0, 1)] = - 10"
  by (simp only: grid_N_two_rows [of 1 0, simplified] quotient_backwards)

lemma stimuli_short_stream:
  "stimuli [(0, 0, 0, 1), (1 / 20, 0, 0, 1)] [(0, 0), (30, 1)] = Inl IndexError"
  by (simp add: stimuli_unfold grid_N_twentieth trimmed_def)

lemma nth_grid_pos:
  assumes "trimmed accel0 \<noteq> []" and "0 \<le> fst (hd (trimmed accel0))"
    and "1 \<le> i" and "i < nat (grid_N accel0)"
  shows "0 < grid accel0 ! i"
proof -
  let ?t0 = "hd (map fst (trimmed accel0))"
  let ?N = "grid_N accel0"
  have n: "2 \<le> nat ?N" using assms(3,4) by simp
  then have N: "0 < real_of_int ?N" by simp
  have t0: "0 \<le> ?t0" using assms(1,2) by (simp add: hd_map)
  define d where "d = real i * ((?t0 + real_of_int ?N / real fs - ?t0) / real (nat ?N - 1))"
  have "grid accel0 ! i = ?t0 + d"
    unfolding grid_def d_def using assms(4) n by (simp add: linspace_def)
  moreover have "0 < d"
    unfolding d_def using assms(3) n N by (simp add: fs_def)
  ultimately show ?thesis using t0 by linarith
qed

lemma stimuli_rows_from_zero:
  assumes "0 \<le> b" and "1 \<le> grid_N [(0, x1, y1, z1), (b, x2, y2, z2)]"
  shows "\<exists>rows. stimuli [(0, x1, y1, z1), (b, x2, y2, z2)] [(0, 0), (30, 1)] = Inr rows \<and>
           int (length rows) = grid_N [(0, x1, y1, z1), (b, x2, y2, z2)]"
proof -
  let ?a = "[(0, x1, y1, z1), (b, x2, y2, z2)]"
  have t: "trimmed ?a = ?a" using assms(1) by (simp add: trimmed_def)
  have "\<exists>rows. stimuli ?a [(0, 0), (30, 1)] = Inr rows"
  proof (rule stimuli_succeeds)
    show "trimmed ?a \<noteq> []" by (simp add: t)
    show "1 \<le> grid_N ?a" by (rule assms(2))
    show "2 \<le> length [(0 :: real, 0 :: real), (30, 1)]" by simp
    show "\<forall>i. 1 \<le> i \<and> i < nat (grid_N ?a) \<longrightarrow>
            (\<exists>r \<in> set [(0, 0), (30, 1)]. fst r < grid ?a ! i)"
    proof (intro allI impI)
      fix i assume i: "1 \<le> i \<and> i < nat (grid_N ?a)"
      have "0 < grid ?a ! i"
        using i by (intro nth_grid_pos) (simp_all add: t)
      then show "\<exists>r \<in> set [(0, 0), (30, 1)]. fst r < grid ?a ! i" by simp
    qed
  qed
  then obtain rows where r: "stimuli ?a [(0, 0), (30, 1)] = Inr rows" by blast
  then obtain ls where
    "rows = map (\<lambda>i. \<lparr>ts = grid ?a ! i,
                      ax = interp (grid ?a ! i)
                             (zip (map fst (trimmed ?a)) (map (\<lambda>r. fst (snd r)) (trimmed ?a))),
                      ay = interp (grid ?a ! i)
                             (zip (map fst (trimmed ?a)) (map (\<lambda>r. fst (snd (snd r))) (trimmed ?a))),
                      az = interp (grid ?a ! i)
                             (zip (map fst (trimmed ?a)) (map (\<lambda>r. snd (snd (snd r))) (trimmed ?a))),
                      label = (snd (hd [(0 :: real, 0 :: real), (30, 1)]) # ls) ! i\<rparr>)
                    [0..<nat (grid_N ?a)]"
    by (rule stimuli_Inr_D)
  then have "length rows = nat (grid_N ?a)" by simp
  with assms(2) r show ?thesis by auto
qed

lemma grid_N_seventeen:
  "grid_N [(0, 0, 0, 1), (7656119366529843 / 4503599627370496, 1, 0, 1)] = 17"
proof -
  define C :: real where "C = 3602879701896397 / 36028797018963968"
  define A :: real where "A = 7656119366529843 / 4503599627370496"
  have c: "fl64 (1 / 10) = C" by (simp add: fl64_tenth C_def)
  have a: "fl64 A = A"
    using fl64_normal [of 0 A 7656119366529843] by (simp add: p2_def A_def)
  have q: "fl64 (A / C) = 17"
    using fl64_normal [of 4 "A / C" "17 * 2 ^ 48"] by (simp add: p2_def A_def C_def)
  have "grid_N [(0, 0, 0, 1), (A, 1, 0, 1)] = \<lfloor>fl64 (fl64 (A - 0) / fl64 (1 / 10))\<rfloor>"
    by (rule grid_N_two_rows) (simp_all add: A_def)
  also have "\<dots> = 17" by (simp add: a c q)
  finally show ?thesis by (simp only: A_def)
qed

lemma grid_N_three_tenths:
  "grid_N [(0, 0, 0, 1), (5404319552844595 / 18014398509481984, 1, 0, 1)] = 2"
proof -
  define C :: real where "C = 3602879701896397 / 36028797018963968"
  define A :: real where "A = 5404319552844595 / 18014398509481984"
  define Q :: real where "Q = 6755399441055743 / 2251799813685248"
  have c: "fl64 (1 / 10) = C" by (simp add: fl64_tenth C_def)
  have a: "fl64 A = A"
    using fl64_normal [of "- 2" A 5404319552844595] by (simp add: p2_def A_def)
  have q: "fl64 (A / C) = Q"
    using fl64_normal [of 1 "A / C" 6755399441055743] by (simp add: p2_def A_def C_def Q_def)
  have f: "\<lfloor>Q\<rfloor> = 2" by (simp add: Q_def)
  have "grid_N [(0, 0, 0, 1), (A, 1, 0, 1)] = \<lfloor>fl64 (fl64 (A - 0) / fl64 (1 / 10))\<rfloor>"
    by (rule grid_N_two_rows) (simp_all add: A_def)
  also have "\<dots> = 2" by (simp add: a c q f)
  finally show ?thesis by (simp only: A_def)
qed

lemma grid_N_three_tenths_decimal:
  "grid_N [(0, 0, 0, 1), (3 / 10, 1, 0, 1)] = 2"
proof -
  define C :: real where "C = 3602879701896397 / 36028797018963968"
  define A :: real where "A = 5404319552844595 / 18014398509481984"
  define Q :: real where "Q = 6755399441055743 / 2251799813685248"
  have c: "fl64 (1 / 10) = C" by (simp add: fl64_tenth C_def)
  have a: "fl64 (3 / 10) = A"
    using fl64_normal [of "- 2" "3 / 10" 5404319552844595] by (simp add: p2_def A_def)
  have q: "fl64 (A / C) = Q"
    using fl64_normal [of 1 "A / C" 6755399441055743] by (simp add: p2_def A_def C_def Q_def)
  have f: "\<lfloor>Q\<rfloor> = 2" by (simp add: Q_def)
  have "grid_N [(0, 0, 0, 1), (3 / 10, 1, 0, 1)] = \<lfloor>fl64 (fl64 (3 / 10 - 0) / fl64 (1 / 10))\<rfloor>"
    by (rule grid_N_two_rows) simp_all
  also have "\<dots> = 2" by (simp add: a c q f)
  finally show ?thesis .
qed

lemma product_three_tenths:
  "\<lfloor>fl64 (fl64 (5404319552844595 / 18014398509481984 - 0) * real fs)\<rfloor> = 3"
proof -
  define A :: real where "A = 5404319552844595 / 18014398509481984"
  have a: "fl64 A = A"
    using fl64_normal [of "- 2" A 5404319552844595] by (simp add: p2_def A_def)
  have q: "fl64 (A * 10) = 3"
    using fl64_normal [of 1 "A * 10" "3 * 2 ^ 51"] by (simp add: p2_def A_def)
  have "\<lfloor>fl64 (fl64 (A - 0) * real fs)\<rfloor> = 3" by (simp add: a q fs_def)
  then show ?thesis by (simp only: A_def)
qed

section \<open>The classification at a window boundary\<close>

text \<open>
  C1. At a window boundary (\<open>i mod (fs * seconds_per_update) = 0\<close>) where
  \<open>arm_angle_mean_d\<close> is already set to \<open>prev\<close>, the body of the loop
  \<^item> takes the window mean of the updated angle window;
  \<^item> computes the change as the absolute value of the difference between the window
    mean and \<open>prev\<close> (\<open>nan\<close> when one of them is \<open>nan\<close>);
  \<^item> pushes it: the new change history is the change followed by the old history
    without its last, oldest entry;
  \<^item> appends exactly one event to \<open>ret\<close>, with the time of the current row and the
    state 0 (awake) if some entry of the new change history is a number above
    \<open>arm_angle_threshold\<close>, 1 (asleep) otherwise;
  \<^item> stores the window mean in \<open>arm_angle_mean_d\<close> and logs the mean and the change in
    row \<open>i\<close> of \<open>dbg\<close>.
\<close>

theorem window_boundary_classification:
  assumes "i mod (fs * seconds_per_update) = 0"
    and "arm_angle_mean_d s = Some prev"
  shows "\<exists>window_mean change.
     window_mean = np_mean (arm_angle_hist (vh_body i x s)) \<and>
     change = (case window_mean of None \<Rightarrow> None
               | Some m \<Rightarrow> (case prev of None \<Rightarrow> None | Some p \<Rightarrow> Some \<bar>m - p\<bar>)) \<and>
     arm_angle_change_hist (vh_body i x s) = change # butlast (arm_angle_change_hist s) \<and>
     ret (vh_body i x s) =
       ret s @ [(ts x, if \<exists>c. Some c \<in> set (arm_angle_change_hist (vh_body i x s)) \<and>
                            arm_angle_threshold < c then 0 else 1)] \<and>
     arm_angle_mean_d (vh_body i x s) = Some window_mean \<and>
     (i < length (dbg s) \<longrightarrow>
        d_mean (dbg (vh_body i x s) ! i) = window_mean \<and>
        d_change (dbg (vh_body i x s) ! i) = change)"
proof -
  let ?m = "np_mean (arm_angle_hist (vh_body i x s))"
  let ?c = "case ?m of None \<Rightarrow> None
            | Some m \<Rightarrow> (case prev of None \<Rightarrow> None | Some p \<Rightarrow> Some \<bar>m - p\<bar>)"
  have c: "np_abs (np_sub ?m prev) = ?c"
    by (simp add: np_abs_def np_sub_def split: option.splits)
  have h: "arm_angle_change_hist (vh_body i x s) = ?c # butlast (arm_angle_change_hist s)"
    using assms c by (simp add: vh_body_def Let_def push_def)
  have r: "ret (vh_body i x s) =
       ret s @ [(ts x, if \<exists>c. Some c \<in> set (arm_angle_change_hist (vh_body i x s)) \<and>
                            arm_angle_threshold < c then 0 else 1)]"
    using assms by (simp add: ret_vh_body list_ex_gt_iff)
  have m: "arm_angle_mean_d (vh_body i x s) = Some ?m"
    using assms(1) by (simp add: arm_angle_mean_d_vh_body)
  have d: "i < length (dbg s) \<longrightarrow>
        d_mean (dbg (vh_body i x s) ! i) = ?m \<and> d_change (dbg (vh_body i x s) ! i) = ?c"
    using assms c by (simp add: dbg_vh_body)
  from h r m d show ?thesis by blast
qed

text \<open>
  On the stream of 51 rows \<open>(0, 0, 1)\<close>, every angle is 90. Before call 50 the stored
  mean is that of the first boundary, \<open>90 / 50 = 1.8\<close>; at call 50 the window holds 50
  angles of 90, the change is \<open>88.2\<close>, it enters the history of zeros, and the event is
  awake.
\<close>

theorem window_boundary_classification_witness:
  "50 mod (fs * seconds_per_update) = 0 \<and>
   arm_angle_mean_d (vh_prefix (replicate 51 \<lparr>ts = 7, ax = 0, ay = 0, az = 1, label = 0\<rparr>) 50)
     = Some (Some (9 / 5)) \<and>
   arm_angle_mean_d (vh_body 50 \<lparr>ts = 7, ax = 0, ay = 0, az = 1, label = 0\<rparr>
        (vh_prefix (replicate 51 \<lparr>ts = 7, ax = 0, ay = 0, az = 1, label = 0\<rparr>) 50))
     = Some (Some 90) \<and>
   arm_angle_change_hist (vh_body 50 \<lparr>ts = 7, ax = 0, ay = 0, az = 1, label = 0\<rparr>
        (vh_prefix (replicate 51 \<lparr>ts = 7, ax = 0, ay = 0, az = 1, label = 0\<rparr>) 50))
     = Some (441 / 5) # replicate 59 (Some 0) \<and>
   d_change (dbg (vh_body 50 \<lparr>ts = 7, ax = 0, ay = 0, az = 1, label = 0\<rparr>
        (vh_prefix (replicate 51 \<lparr>ts = 7, ax = 0, ay = 0, az = 1, label = 0\<rparr>) 50)) ! 50)
     = Some (441 / 5) \<and>
   ret (vh_body 50 \<lparr>ts = 7, ax = 0, ay = 0, az = 1, label = 0\<rparr>
        (vh_prefix (replicate 51 \<lparr>ts = 7, ax = 0, ay = 0, az = 1, label = 0\<rparr>) 50))
     = [(0, 0), (7, 0)]"
proof -
  let ?r = "\<lparr>ts = 7, ax = 0, ay = 0, az = 1, label = 0\<rparr>"
  let ?V = "replicate 51 ?r"
  let ?s = "vh_prefix ?V 50"
  have v: "\<forall>x \<in> set ?V. ax x = 0 \<and> ay x = 0 \<and> az x = 1" by simp
  have W: "fs * seconds_per_update = 50" by (simp add: fs_def seconds_per_update_def)
  have b: "50 mod (fs * seconds_per_update) = 0" by (simp add: W)
  have step: "vh_prefix ?V 51 = vh_body 50 ?r ?s"
    using vh_prefix_Suc [of 50 ?V] by simp
  have prev: "arm_angle_mean_d ?s = Some (Some (9 / 5))"
    using mean_d_vh_prefix_value [of 50 ?V] vertical_mean [OF v, of 0] by (simp add: W)
  have "np_mean (arm_angle_hist (vh_prefix ?V 51)) = Some 90"
    using d_mean_boundary_row [of 50 ?V] vertical_mean [OF v, of 50] by (simp add: W)
  then have cur: "np_mean (arm_angle_hist (vh_body 50 ?r ?s)) = Some 90"
    by (simp only: step)
  have h0: "arm_angle_change_hist ?s = replicate 60 (Some 0)"
    using change_hist_first_window [of 50 ?V] by (simp add: W classification_hist_size_def)
  have r0: "ret ?s = [(0, 0)]"
    using ret_vh_prefix_first_window [of 50 ?V] by (simp add: W)
  have l: "50 < length (dbg ?s)" by (simp add: length_dbg_vh_prefix)
  from window_boundary_classification [OF b prev, of ?r] obtain window_mean change where
    wm: "window_mean = np_mean (arm_angle_hist (vh_body 50 ?r ?s))"
    and ch: "change = (case window_mean of None \<Rightarrow> None
               | Some m \<Rightarrow> (case Some (9 / 5) of None \<Rightarrow> None | Some p \<Rightarrow> Some \<bar>m - p\<bar>))"
    and hist: "arm_angle_change_hist (vh_body 50 ?r ?s) = change # butlast (arm_angle_change_hist ?s)"
    and ev: "ret (vh_body 50 ?r ?s) =
       ret ?s @ [(ts ?r, if \<exists>c. Some c \<in> set (arm_angle_change_hist (vh_body 50 ?r ?s)) \<and>
                            arm_angle_threshold < c then 0 else 1)]"
    and md: "arm_angle_mean_d (vh_body 50 ?r ?s) = Some window_mean"
    and dc: "50 < length (dbg ?s) \<longrightarrow>
        d_mean (dbg (vh_body 50 ?r ?s) ! 50) = window_mean \<and>
        d_change (dbg (vh_body 50 ?r ?s) ! 50) = change"
    by blast
  have wm90: "window_mean = Some 90" using wm cur by simp
  have c: "change = Some (441 / 5)" using ch wm90 by simp
  have hist': "arm_angle_change_hist (vh_body 50 ?r ?s) = Some (441 / 5) # replicate 59 (Some 0)"
    using hist c h0 by (simp add: butlast_replicate_eq)
  have "\<exists>c. Some c \<in> set (arm_angle_change_hist (vh_body 50 ?r ?s)) \<and> arm_angle_threshold < c"
    unfolding hist' by (intro exI [of _ "441 / 5"]) (simp add: arm_angle_threshold_def)
  with ev r0 have ev': "ret (vh_body 50 ?r ?s) = [(0, 0), (7, 0)]" by simp
  from b prev md wm90 hist' dc l c ev' show ?thesis by simp
qed

section \<open>Hysteresis\<close>

text \<open>
  C2. For every input stream and every window \<open>k \<ge> 1\<close> that the stream reaches, with
  \<open>window_change stim j\<close> the change logged at window \<open>j\<close> and \<open>event_state stim k\<close> the
  state of the event emitted at window \<open>k\<close>:
  \<^item> the change of window \<open>k\<close> is the absolute value of the difference between the
    window means of the windows \<open>k\<close> and \<open>k - 1\<close>;
  \<^item> if none of the changes of the last \<open>classification_hist_size\<close> windows
    (\<open>k - classification_hist_size < j \<le> k\<close>) is a number above
    \<open>arm_angle_threshold\<close>, the emitted state is 1 (asleep); a change below the
    threshold is in particular not above it;
  \<^item> if the change of some window \<open>j\<close> among these is above the threshold, the emitted
    state is 0 (awake): for \<open>j = k\<close> the event of the very window that pushed the change,
    and for \<open>j < k < j + classification_hist_size\<close> the events of the
    \<open>classification_hist_size - 1\<close> windows after it, whatever their changes are.
  So after a change above the threshold at window \<open>j\<close> no asleep event is emitted before
  window \<open>j + classification_hist_size\<close>, and one is emitted there when the
  \<open>classification_hist_size\<close> changes after \<open>j\<close> are not above the threshold, in
  particular when they are below it (the last part of the statement).
\<close>

theorem hysteresis:
  assumes "0 < k" and "fs * seconds_per_update * k < length stim"
  shows "window_change stim k =
           (case d_mean (snd (vanhees2015_modified stim) ! (fs * seconds_per_update * k)) of
              None \<Rightarrow> None
            | Some m \<Rightarrow>
                (case d_mean (snd (vanhees2015_modified stim) !
                               (fs * seconds_per_update * (k - 1))) of
                   None \<Rightarrow> None | Some p \<Rightarrow> Some \<bar>m - p\<bar>))
       \<and> ((\<forall>j. 0 < j \<and> j \<le> k \<and> k < j + classification_hist_size \<longrightarrow>
              \<not> (\<exists>c. window_change stim j = Some c \<and> arm_angle_threshold < c)) \<longrightarrow>
            event_state stim k = 1)
       \<and> (\<forall>j. 0 < j \<and> j \<le> k \<and> k < j + classification_hist_size \<and>
              (\<exists>c. window_change stim j = Some c \<and> arm_angle_threshold < c) \<longrightarrow>
            event_state stim k = 0)
       \<and> (\<forall>j. 0 < j \<and> k = j + classification_hist_size \<and>
              (\<forall>i. j < i \<and> i \<le> k \<longrightarrow>
                 (\<exists>c. window_change stim i = Some c \<and> c < arm_angle_threshold)) \<longrightarrow>
            event_state stim k = 1)"
proof -
  have g: "np_gt a arm_angle_threshold = (\<exists>c. a = Some c \<and> arm_angle_threshold < c)" for a
    by (cases a) (simp_all add: np_gt_def)
  have a: "window_change stim k =
           (case d_mean (snd (vanhees2015_modified stim) ! (fs * seconds_per_update * k)) of
              None \<Rightarrow> None
            | Some m \<Rightarrow>
                (case d_mean (snd (vanhees2015_modified stim) !
                               (fs * seconds_per_update * (k - 1))) of
                   None \<Rightarrow> None | Some p \<Rightarrow> Some \<bar>m - p\<bar>))"
    unfolding window_change_means [OF assms]
    by (simp add: np_abs_def np_sub_def split: option.splits)
  have e: "event_state stim k =
      (if \<exists>j. 0 < j \<and> j \<le> k \<and> k < j + classification_hist_size \<and>
               (\<exists>c. window_change stim j = Some c \<and> arm_angle_threshold < c) then 0 else 1)"
    using event_state_eq [OF assms] np_any_gt_recent [of stim k] by (simp add: g)
  have calm: "event_state stim k = 1"
    if "\<forall>j. 0 < j \<and> j \<le> k \<and> k < j + classification_hist_size \<longrightarrow>
              \<not> (\<exists>c. window_change stim j = Some c \<and> arm_angle_threshold < c)"
    using that e by auto
  have awake: "\<forall>j. 0 < j \<and> j \<le> k \<and> k < j + classification_hist_size \<and>
              (\<exists>c. window_change stim j = Some c \<and> arm_angle_threshold < c) \<longrightarrow>
            event_state stim k = 0"
    using e by auto
  have again: "event_state stim k = 1"
    if h: "0 < j \<and> k = j + classification_hist_size \<and>
              (\<forall>i. j < i \<and> i \<le> k \<longrightarrow>
                 (\<exists>c. window_change stim i = Some c \<and> c < arm_angle_threshold))" for j
  proof (rule calm, intro allI impI)
    fix i assume i: "0 < i \<and> i \<le> k \<and> k < i + classification_hist_size"
    with h have "j < i \<and> i \<le> k" by simp
    with h obtain c where "window_change stim i = Some c" "c < arm_angle_threshold" by blast
    then show "\<not> (\<exists>c. window_change stim i = Some c \<and> arm_angle_threshold < c)" by auto
  qed
  from a calm awake again show ?thesis by blast
qed

text \<open>
  On the stream of 3051 rows \<open>(0, 0, 1)\<close> the change of window 1 is \<open>88.2\<close> and every
  later change is 0: the events of the windows 1 to 60 are awake, the event of window 61
  is the first asleep one.
\<close>

theorem hysteresis_witness:
  "fs * seconds_per_update * 61 <
     length (replicate 3051 \<lparr>ts = 0, ax = 0, ay = 0, az = 1, label = 0\<rparr>) \<and>
   window_change (replicate 3051 \<lparr>ts = 0, ax = 0, ay = 0, az = 1, label = 0\<rparr>) 1
     = Some (441 / 5) \<and>
   arm_angle_threshold < 441 / 5 \<and>
   event_state (replicate 3051 \<lparr>ts = 0, ax = 0, ay = 0, az = 1, label = 0\<rparr>) 1 = 0 \<and>
   window_change (replicate 3051 \<lparr>ts = 0, ax = 0, ay = 0, az = 1, label = 0\<rparr>) 2 = Some 0 \<and>
   event_state (replicate 3051 \<lparr>ts = 0, ax = 0, ay = 0, az = 1, label = 0\<rparr>) 60 = 0 \<and>
   window_change (replicate 3051 \<lparr>ts = 0, ax = 0, ay = 0, az = 1, label = 0\<rparr>) 61 = Some 0 \<and>
   event_state (replicate 3051 \<lparr>ts = 0, ax = 0, ay = 0, az = 1, label = 0\<rparr>) 61 = 1"
proof -
  let ?V = "replicate 3051 \<lparr>ts = 0, ax = 0, ay = 0, az = 1, label = 0\<rparr>"
  have v: "\<forall>x \<in> set ?V. ax x = 0 \<and> ay x = 0 \<and> az x = 1" by simp
  have W: "fs * seconds_per_update = 50" by (simp add: fs_def seconds_per_update_def)
  have H: "classification_hist_size = 60" by (simp add: classification_hist_size_def)
  have T: "arm_angle_threshold < 441 / 5" by (simp add: arm_angle_threshold_def)
  have wc: "window_change ?V k = (if k = 1 then Some (441 / 5) else Some 0)"
    if "0 < k" "k \<le> 61" for k
    using that by (intro vertical_window_change [OF v]) (simp_all add: W)
  have l61: "fs * seconds_per_update * 61 < length ?V" by (simp add: W)
  have l60: "fs * seconds_per_update * 60 < length ?V" by (simp add: W)
  have l1: "fs * seconds_per_update * 1 < length ?V" by (simp add: W)
  have w1: "window_change ?V 1 = Some (441 / 5)" using wc [of 1] by simp
  have up: "\<exists>c. window_change ?V 1 = Some c \<and> arm_angle_threshold < c"
    using w1 T by blast
  have p1: "0 < (1::nat)" and p60: "0 < (60::nat)" and p61: "0 < (61::nat)" by simp_all
  have e1: "event_state ?V 1 = 0"
  proof -
    have "0 < (1::nat) \<and> (1::nat) \<le> 1 \<and> 1 < 1 + classification_hist_size \<and>
          (\<exists>c. window_change ?V 1 = Some c \<and> arm_angle_threshold < c)"
      using up by (simp add: H)
    with hysteresis [OF p1 l1] show ?thesis by blast
  qed
  have e60: "event_state ?V 60 = 0"
  proof -
    have "0 < (1::nat) \<and> (1::nat) \<le> 60 \<and> 60 < 1 + classification_hist_size \<and>
          (\<exists>c. window_change ?V 1 = Some c \<and> arm_angle_threshold < c)"
      using up by (simp add: H)
    with hysteresis [OF p60 l60] show ?thesis by blast
  qed
  have calm: "\<forall>j. 0 < j \<and> j \<le> 61 \<and> 61 < j + classification_hist_size \<longrightarrow>
              \<not> (\<exists>c. window_change ?V j = Some c \<and> arm_angle_threshold < c)"
  proof (intro allI impI)
    fix j :: nat
    assume j: "0 < j \<and> j \<le> 61 \<and> 61 < j + classification_hist_size"
    then have "j \<noteq> 1" by (simp add: H)
    with j wc [of j] have "window_change ?V j = Some 0" by simp
    then show "\<not> (\<exists>c. window_change ?V j = Some c \<and> arm_angle_threshold < c)"
      by (simp add: arm_angle_threshold_def)
  qed
  have e61: "event_state ?V 61 = 1"
    using hysteresis [OF p61 l61] calm by blast
  from l61 T e1 e60 e61 wc [of 1] wc [of 2] wc [of 61] show ?thesis by simp
qed

section \<open>The cadence of the events\<close>

text \<open>
  C3 as stated fails: a stream of \<open>fs * seconds_per_update = 50\<close> samples, which the
  claim admits, yields no event beyond the seed. The only boundary among its calls is
  call 0, where \<open>arm_angle_mean_d\<close> is still \<open>None\<close>, and the guard
  \<open>if arm_angle_mean_d is not None\<close> of line 132 keeps the loop from appending:
  the window that completes at the very first sample is skipped as an event.
\<close>

theorem fifty_rows_only_seed:
  "fs * seconds_per_update \<le> length (replicate 50 \<lparr>ts = 3, ax = 1, ay = 0, az = 1, label = 0\<rparr>) \<and>
   fst (vanhees2015_modified (replicate 50 \<lparr>ts = 3, ax = 1, ay = 0, az = 1, label = 0\<rparr>)) = [(0, 0)]"
proof -
  let ?stim = "replicate 50 \<lparr>ts = 3, ax = 1, ay = 0, az = 1, label = 0\<rparr>"
  have "length (map fst (ret (vh_prefix ?stim (length ?stim)))) = 1"
    by (simp add: ret_times_vh_prefix count_boundaries fs_def seconds_per_update_def)
  then have len: "length (fst (vanhees2015_modified ?stim)) = 1"
    by (simp add: vh_prefix_all)
  have "ret (vh_init (length ?stim)) = (0, 0) # []" by (simp add: vh_init_def)
  from ret_vh_loop_seed [OF this] obtain rest where
    "fst (vanhees2015_modified ?stim) = (0, 0) # rest"
    by (auto simp add: vanhees2015_modified_def Let_def)
  with len have "fst (vanhees2015_modified ?stim) = [(0, 0)]" by simp
  then show ?thesis by (simp add: fs_def seconds_per_update_def)
qed

text \<open>
  C3, amended. For every input stream and every call \<open>i\<close> of the loop: an event is appended to
  \<open>ret\<close> exactly when \<open>i\<close> is a positive multiple of \<open>fs * seconds_per_update\<close>, and then
  exactly one, with the time of row \<open>i\<close>; on every other call \<open>ret\<close> is unchanged. A window
  completes (its mean is stored in \<open>arm_angle_mean_d\<close>) exactly on the calls with
  \<open>i mod (fs * seconds_per_update) = 0\<close>, the call \<open>i = 0\<close> included, which only stores
  the mean. So the events after the seed are those of the rows
  \<open>fs * seconds_per_update\<close>, \<open>2 * fs * seconds_per_update\<close>, ... in this order, none
  skipped and none added, and there are \<open>(length stim - 1) div (fs * seconds_per_update)\<close>
  of them.
\<close>

theorem windowing_cadence:
  assumes "i < length stim"
  shows "(i mod (fs * seconds_per_update) = 0 \<and> 0 < i \<longrightarrow>
            (\<exists>st. ret (vh_prefix stim (Suc i)) = ret (vh_prefix stim i) @ [(ts (stim ! i), st)]))
       \<and> (\<not> (i mod (fs * seconds_per_update) = 0 \<and> 0 < i) \<longrightarrow>
            ret (vh_prefix stim (Suc i)) = ret (vh_prefix stim i))
       \<and> (i mod (fs * seconds_per_update) = 0 \<longrightarrow>
            arm_angle_mean_d (vh_prefix stim (Suc i)) =
              Some (np_mean (arm_angle_hist (vh_prefix stim (Suc i)))))
       \<and> (i mod (fs * seconds_per_update) \<noteq> 0 \<longrightarrow>
            arm_angle_mean_d (vh_prefix stim (Suc i)) = arm_angle_mean_d (vh_prefix stim i))
       \<and> map fst (fst (vanhees2015_modified stim)) =
            0 # map (\<lambda>j. ts (stim ! j))
                  (filter (\<lambda>j. j mod (fs * seconds_per_update) = 0 \<and> 0 < j) [0..<length stim])
       \<and> length (fst (vanhees2015_modified stim)) =
            1 + (length stim - 1) div (fs * seconds_per_update)"
proof -
  have w: "0 < fs * seconds_per_update"
    by (simp add: fs_def seconds_per_update_def)
  have times: "map fst (fst (vanhees2015_modified stim)) =
            0 # map (\<lambda>j. ts (stim ! j))
                  (filter (\<lambda>j. j mod (fs * seconds_per_update) = 0 \<and> 0 < j) [0..<length stim])"
    using ret_times_vh_prefix [of "length stim" stim] by (simp add: vh_prefix_all)
  have "length (map fst (fst (vanhees2015_modified stim))) =
          1 + (length stim - 1) div (fs * seconds_per_update)"
    unfolding times using count_boundaries [OF w, of "length stim"] by simp
  then have len: "length (fst (vanhees2015_modified stim)) =
          1 + (length stim - 1) div (fs * seconds_per_update)"
    by simp
  have a: "i mod (fs * seconds_per_update) = 0 \<and> 0 < i \<longrightarrow>
            (\<exists>st. ret (vh_prefix stim (Suc i)) = ret (vh_prefix stim i) @ [(ts (stim ! i), st)])"
    using assms by (simp add: ret_vh_prefix_Suc)
  have b: "\<not> (i mod (fs * seconds_per_update) = 0 \<and> 0 < i) \<longrightarrow>
            ret (vh_prefix stim (Suc i)) = ret (vh_prefix stim i)"
    using assms ret_vh_prefix_Suc [of i stim] by auto
  have c: "i mod (fs * seconds_per_update) = 0 \<longrightarrow>
            arm_angle_mean_d (vh_prefix stim (Suc i)) =
              Some (np_mean (arm_angle_hist (vh_prefix stim (Suc i))))"
    using assms by (simp add: vh_prefix_Suc mean_d_vh_body_boundary)
  have d: "i mod (fs * seconds_per_update) \<noteq> 0 \<longrightarrow>
            arm_angle_mean_d (vh_prefix stim (Suc i)) = arm_angle_mean_d (vh_prefix stim i)"
    using assms by (simp add: vh_prefix_Suc vh_body_off_boundary)
  from a b c d times len show ?thesis by blast
qed

theorem windowing_cadence_witness:
  "(50::nat) < length (replicate 51 \<lparr>ts = 3, ax = 1, ay = 0, az = 1, label = 0\<rparr>) \<and>
   50 mod (fs * seconds_per_update) = 0 \<and>
   (\<exists>st. ret (vh_prefix (replicate 51 \<lparr>ts = 3, ax = 1, ay = 0, az = 1, label = 0\<rparr>) (Suc 50)) =
      ret (vh_prefix (replicate 51 \<lparr>ts = 3, ax = 1, ay = 0, az = 1, label = 0\<rparr>) 50) @ [(3, st)]) \<and>
   length (fst (vanhees2015_modified (replicate 51 \<lparr>ts = 3, ax = 1, ay = 0, az = 1, label = 0\<rparr>))) = 2"
  using windowing_cadence [of 50 "replicate 51 \<lparr>ts = 3, ax = 1, ay = 0, az = 1, label = 0\<rparr>"]
  by (simp add: fs_def seconds_per_update_def)

section \<open>The window mean\<close>

text \<open>
  C4 as stated fails at the first boundary. After the single row \<open>(1, 0, 1)\<close> one angle,
  45 degrees, has been pushed; the mean of the pushed angles is 45, while the program's
  window mean is \<open>45 / 50 = 0.9\<close>: \<open>np.mean\<close> runs over all 50 slots of
  \<open>arm_angle_hist\<close>, 49 of which still hold their initial 0.
\<close>

theorem window_mean_counterexample:
  "d_mean (snd (vanhees2015_modified [\<lparr>ts = 0, ax = 1, ay = 0, az = 1, label = 0\<rparr>]) ! 0)
     = Some (9 / 10) \<and>
   np_mean (map d_ang (snd (vanhees2015_modified
      [\<lparr>ts = 0, ax = 1, ay = 0, az = 1, label = 0\<rparr>]))) = Some 45 \<and>
   d_mean (snd (vanhees2015_modified [\<lparr>ts = 0, ax = 1, ay = 0, az = 1, label = 0\<rparr>]) ! 0)
     \<noteq> np_mean (map d_ang (snd (vanhees2015_modified
      [\<lparr>ts = 0, ax = 1, ay = 0, az = 1, label = 0\<rparr>])))"
proof -
  let ?dbg = "snd (vanhees2015_modified [\<lparr>ts = 0, ax = 1, ay = 0, az = 1, label = 0\<rparr>])"
  have "length ?dbg = 1" by (simp add: length_dbg_final)
  then have "?dbg = [?dbg ! 0]"
    by (cases ?dbg) simp_all
  then have "map d_ang ?dbg = [Some 45]"
    using first_row_diagonal by (metis dbg_row.select_convs(5) list.simps(8,9))
  then have "np_mean (map d_ang ?dbg) = Some 45"
    by (simp add: np_mean_def np_add_def)
  then show ?thesis using first_row_diagonal by simp
qed

text \<open>
  C4, amended. At every window boundary \<open>i\<close> the window mean (logged in column 5 of
  \<open>dbg\<close> and stored in \<open>arm_angle_mean_d\<close>) is \<open>np.mean\<close> over all
  \<open>fs * seconds_per_update\<close> slots of \<open>arm_angle_hist\<close>: the angles pushed so far, newest
  first, followed by the initial zeros of the slots not yet written. At the first
  boundary (\<open>i = 0\<close>) that is the first angle and 49 zeros; at every later boundary the
  buffer is full and the mean is taken over exactly the last
  \<open>fs * seconds_per_update\<close> pushed angles.
\<close>

theorem window_mean_all_slots:
  assumes "i < length stim" and "i mod (fs * seconds_per_update) = 0"
  shows "d_mean (snd (vanhees2015_modified stim) ! i) =
           np_mean (take (fs * seconds_per_update)
             (rev (map d_ang (take (Suc i) (snd (vanhees2015_modified stim)))) @
              replicate (fs * seconds_per_update) (Some 0)))
       \<and> arm_angle_mean_d (vh_prefix stim (Suc i)) =
           Some (d_mean (snd (vanhees2015_modified stim) ! i))
       \<and> (fs * seconds_per_update \<le> Suc i \<longrightarrow>
            d_mean (snd (vanhees2015_modified stim) ! i) =
              np_mean (take (fs * seconds_per_update)
                (rev (map d_ang (take (Suc i) (snd (vanhees2015_modified stim)))))))
       \<and> (i = 0 \<longrightarrow>
            d_mean (snd (vanhees2015_modified stim) ! i) =
              np_mean (d_ang (snd (vanhees2015_modified stim) ! 0) #
                       replicate (fs * seconds_per_update - 1) (Some 0)))"
proof -
  let ?dbg = "snd (vanhees2015_modified stim)"
  let ?W = "fs * seconds_per_update"
  have len: "length ?dbg = length stim" by (rule length_dbg_final)
  have m: "d_mean (?dbg ! i) =
             np_mean (take ?W (rev (map d_ang (take (Suc i) ?dbg)) @ replicate ?W (Some 0)))"
    using assms by (rule d_mean_final)
  have md: "arm_angle_mean_d (vh_prefix stim (Suc i)) = Some (d_mean (?dbg ! i))"
    using assms dbg_final_row [OF assms(1)]
    by (simp add: vh_prefix_all vh_prefix_Suc arm_angle_mean_d_vh_body)
  have full: "d_mean (?dbg ! i) = np_mean (take ?W (rev (map d_ang (take (Suc i) ?dbg))))"
    if "?W \<le> Suc i"
  proof -
    have "length (rev (map d_ang (take (Suc i) ?dbg))) = Suc i"
      using assms(1) len by simp
    with that show ?thesis unfolding m by simp
  qed
  have first: "d_mean (?dbg ! i) =
      np_mean (d_ang (?dbg ! 0) # replicate (?W - 1) (Some 0))" if "i = 0"
  proof -
    have "take (Suc 0) ?dbg = [?dbg ! 0]"
      using assms(1) len that by (cases ?dbg) simp_all
    then have "d_mean (?dbg ! i) =
        np_mean (take ?W ((d_ang (?dbg ! 0) # []) @ replicate ?W (Some 0)))"
      using m that by simp
    also have "take ?W ((d_ang (?dbg ! 0) # []) @ replicate ?W (Some 0)) =
        d_ang (?dbg ! 0) # take (?W - 1) (replicate ?W (Some 0))"
      using window_pos by (simp add: take_Cons')
    also have "take (?W - 1) (replicate ?W (Some 0)) = replicate (?W - 1) (Some 0)"
      by (simp add: min_def)
    finally show ?thesis .
  qed
  from m md full first show ?thesis by blast
qed

theorem window_mean_all_slots_witness:
  "(0::nat) < length [\<lparr>ts = 0, ax = 1, ay = 0, az = 1, label = 0\<rparr>] \<and>
   0 mod (fs * seconds_per_update) = 0 \<and>
   d_mean (snd (vanhees2015_modified [\<lparr>ts = 0, ax = 1, ay = 0, az = 1, label = 0\<rparr>]) ! 0) =
     np_mean (Some 45 # replicate (fs * seconds_per_update - 1) (Some 0))"
proof -
  let ?stim = "[\<lparr>ts = 0, ax = 1, ay = 0, az = 1, label = 0\<rparr>]"
  have i: "(0::nat) < length ?stim" by simp
  have b: "0 mod (fs * seconds_per_update) = 0" by simp
  have a: "d_ang (snd (vanhees2015_modified ?stim) ! 0) = Some 45"
    by (simp add: first_row_diagonal)
  from window_mean_all_slots [OF i b] have
    "d_mean (snd (vanhees2015_modified ?stim) ! 0) =
       np_mean (d_ang (snd (vanhees2015_modified ?stim) ! 0) #
                replicate (fs * seconds_per_update - 1) (Some 0))"
    by blast
  with i b show ?thesis unfolding a by blast
qed

section \<open>The time grid of the resampler\<close>

text \<open>
  C5. The claim \<open>t[i] = t[0] + i/fs\<close> fails on the code. For the two accelerometer
  samples at \<open>t = 0\<close> and \<open>t = 0.2\<close> the program computes \<open>N = 2\<close> and
  \<open>np.linspace(0, 0.2, 2)\<close>, whose two points are the end points: the second grid
  timestamp is \<open>0.2\<close>, not \<open>0 + 1/10\<close>. \<open>linspace\<close> includes the end point, so the
  \<open>N\<close> points are \<open>N/(fs * (N - 1))\<close> apart.
\<close>

theorem grid_spacing_two_samples:
  "stimuli [(0, 0, 0, 1), (1 / 5, 1, 0, 1)] [(0, 0), (1 / 10, 2), (30, 1)] =
     Inr [\<lparr>ts = 0, ax = 0, ay = 0, az = 1, label = 0\<rparr>,
          \<lparr>ts = 1 / 5, ax = 1, ay = 0, az = 1, label = 2\<rparr>]
   \<and> (1 / 5 :: real) \<noteq> 0 + 1 / real fs"
  by (simp add: stimuli_two_samples fs_def)

section \<open>The number of rows\<close>

text \<open>
  C6 as stated fails, in two ways.

  A stream that is not empty after the trim does not always yield rows: for the samples
  at \<open>t = 0\<close> and \<open>t = 0.05\<close>, \<open>N = 0\<close> and the store \<open>truth_interp[0] = ...\<close> raises
  IndexError.

  When rows are returned, their number is the floor of the float64 quotient
  \<open>delta_t / (1/fs)\<close>, which is not always \<open>floor((t_last - t0) * fs)\<close>
  (\<open>map_sum id length\<close> below counts the rows of a returned array):
  \<^item> for the samples at \<open>t = 0\<close> and \<open>t = 0.3\<close> the program returns 2 rows, where
    \<open>(0.3 - 0) * 10 = 3\<close>; the same holds on the float64 that \<open>0.3\<close> is parsed to,
    \<open>5404319552844595 / 2^54\<close>, whose float64 product with 10 is 3;
  \<^item> for the samples at \<open>t = 0\<close> and the float64 \<open>7656119366529843 / 2^52\<close>, which
    \<open>1.7\<close> is parsed to, the program returns 17 rows, where \<open>(t_last - t0) * fs\<close> on the
    reals is below 17.
  So the claimed number of rows fails whether the product is read on the decimals, on
  the reals or in float64.
\<close>

theorem row_count_counterexample:
  "trimmed [(0, 0, 0, 1), (1 / 20, 0, 0, 1)] \<noteq> [] \<and>
   stimuli [(0, 0, 0, 1), (1 / 20, 0, 0, 1)] [(0, 0), (30, 1)] = Inl IndexError \<and>
   map_sum id length (stimuli [(0, 0, 0, 1), (3 / 10, 1, 0, 1)] [(0, 0), (30, 1)]) = Inr 2 \<and>
   \<lfloor>(3 / 10 - 0) * real fs\<rfloor> = 3 \<and>
   map_sum id length
     (stimuli [(0, 0, 0, 1), (5404319552844595 / 18014398509481984, 1, 0, 1)] [(0, 0), (30, 1)])
     = Inr 2 \<and>
   \<lfloor>fl64 (fl64 (5404319552844595 / 18014398509481984 - 0) * real fs)\<rfloor> = 3 \<and>
   map_sum id length
     (stimuli [(0, 0, 0, 1), (7656119366529843 / 4503599627370496, 1, 0, 1)] [(0, 0), (30, 1)])
     = Inr 17 \<and>
   \<lfloor>(7656119366529843 / 4503599627370496 - 0) * real fs\<rfloor> = 16"
proof -
  have a: "trimmed [(0, 0, 0, 1), (1 / 20, 0, 0, 1)] \<noteq> []" by (simp add: trimmed_def)
  have b: "map_sum id length
     (stimuli [(0, 0, 0, 1), (7656119366529843 / 4503599627370496, 1, 0, 1)] [(0, 0), (30, 1)])
     = Inr 17"
    using stimuli_rows_from_zero [of "7656119366529843 / 4503599627370496" 0 0 1 1 0 1]
    by (auto simp add: grid_N_seventeen)
  have c: "\<lfloor>(7656119366529843 / 4503599627370496 - 0) * real fs\<rfloor> = 16"
    by (simp add: fs_def)
  have d: "map_sum id length
     (stimuli [(0, 0, 0, 1), (5404319552844595 / 18014398509481984, 1, 0, 1)] [(0, 0), (30, 1)])
     = Inr 2"
    using stimuli_rows_from_zero [of "5404319552844595 / 18014398509481984" 0 0 1 1 0 1]
    by (auto simp add: grid_N_three_tenths)
  have e: "map_sum id length (stimuli [(0, 0, 0, 1), (3 / 10, 1, 0, 1)] [(0, 0), (30, 1)]) = Inr 2"
    using stimuli_rows_from_zero [of "3 / 10" 0 0 1 1 0 1]
    by (auto simp add: grid_N_three_tenths_decimal)
  have f: "\<lfloor>(3 / 10 - 0) * real fs\<rfloor> = 3" by (simp add: fs_def)
  from a stimuli_short_stream b c d e f product_three_tenths show ?thesis by blast
qed

text \<open>
  C6, amended. When the stream is not empty after the trim, \<open>N \<ge> 1\<close>, the label
  stream has at least two rows and every grid timestamp after the first has a label
  sample strictly before it, \<open>stimuli\<close> returns rows. Whenever it returns rows, these
  conditions hold, the number of rows is \<open>N\<close> as the program computes it, the floor of
  the float64 quotient of the float64 difference \<open>t_last - t0\<close> by the float64 \<open>1/fs\<close>,
  and row \<open>i\<close> holds the grid timestamp, the three interpolated axes and a label of the
  label stream.
\<close>

theorem stimuli_row_count:
  "(trimmed accel0 \<noteq> [] \<and> 1 \<le> grid_N accel0 \<and> 2 \<le> length truth \<and>
      (\<forall>i. 1 \<le> i \<and> i < nat (grid_N accel0) \<longrightarrow> (\<exists>r \<in> set truth. fst r < grid accel0 ! i))
      \<longrightarrow> (\<exists>rows. stimuli accel0 truth = Inr rows))
   \<and> (stimuli accel0 truth = Inr rows \<longrightarrow>
        trimmed accel0 \<noteq> [] \<and> 1 \<le> grid_N accel0 \<and> 2 \<le> length truth \<and>
        (\<forall>i. 1 \<le> i \<and> i < nat (grid_N accel0) \<longrightarrow> (\<exists>r \<in> set truth. fst r < grid accel0 ! i)) \<and>
        int (length rows) =
          \<lfloor>fl64 (fl64 (fst (last (trimmed accel0)) - fst (hd (trimmed accel0))) /
                  fl64 (1 / real fs))\<rfloor> \<and>
        (\<forall>i < length rows.
           ts (rows ! i) = grid accel0 ! i \<and>
           ax (rows ! i) = interp (grid accel0 ! i)
              (zip (map fst (trimmed accel0)) (map (\<lambda>r. fst (snd r)) (trimmed accel0))) \<and>
           ay (rows ! i) = interp (grid accel0 ! i)
              (zip (map fst (trimmed accel0)) (map (\<lambda>r. fst (snd (snd r))) (trimmed accel0))) \<and>
           az (rows ! i) = interp (grid accel0 ! i)
              (zip (map fst (trimmed accel0)) (map (\<lambda>r. snd (snd (snd r))) (trimmed accel0))) \<and>
           label (rows ! i) \<in> snd ` set truth))"
proof (intro conjI impI)
  assume "trimmed accel0 \<noteq> [] \<and> 1 \<le> grid_N accel0 \<and> 2 \<le> length truth \<and>
      (\<forall>i. 1 \<le> i \<and> i < nat (grid_N accel0) \<longrightarrow> (\<exists>r \<in> set truth. fst r < grid accel0 ! i))"
  then show "\<exists>rows. stimuli accel0 truth = Inr rows"
    by (intro stimuli_succeeds) blast+
next
  assume ok: "stimuli accel0 truth = Inr rows"
  then obtain ls where t: "trimmed accel0 \<noteq> []" and n: "1 \<le> grid_N accel0"
    and tr: "2 \<le> length truth"
    and rows: "rows = map (\<lambda>i. \<lparr>ts = grid accel0 ! i,
                      ax = interp (grid accel0 ! i)
                             (zip (map fst (trimmed accel0)) (map (\<lambda>r. fst (snd r)) (trimmed accel0))),
                      ay = interp (grid accel0 ! i)
                             (zip (map fst (trimmed accel0)) (map (\<lambda>r. fst (snd (snd r))) (trimmed accel0))),
                      az = interp (grid accel0 ! i)
                             (zip (map fst (trimmed accel0)) (map (\<lambda>r. snd (snd (snd r))) (trimmed accel0))),
                      label = (snd (hd truth) # ls) ! i\<rparr>)
                    [0..<nat (grid_N accel0)]"
    by (rule stimuli_Inr_D)
  have len: "length rows = nat (grid_N accel0)" by (simp add: rows)
  show "trimmed accel0 \<noteq> []" by (rule t)
  show "1 \<le> grid_N accel0" by (rule n)
  show "2 \<le> length truth" by (rule tr)
  show "int (length rows) =
          \<lfloor>fl64 (fl64 (fst (last (trimmed accel0)) - fst (hd (trimmed accel0))) /
                  fl64 (1 / real fs))\<rfloor>"
    using n len grid_N_spec [OF t] by simp
  show "\<forall>i. 1 \<le> i \<and> i < nat (grid_N accel0) \<longrightarrow> (\<exists>r \<in> set truth. fst r < grid accel0 ! i)"
  proof (intro allI impI)
    fix i assume i: "1 \<le> i \<and> i < nat (grid_N accel0)"
    then have "filter (\<lambda>r. fst r < ts (rows ! i)) truth \<noteq> []"
      using stimuli_labels(3) [OF ok, of i] len by simp
    moreover have "ts (rows ! i) = grid accel0 ! i" using i by (simp add: rows)
    ultimately show "\<exists>r \<in> set truth. fst r < grid accel0 ! i"
      by (simp add: filter_empty_conv)
  qed
  show "\<forall>i < length rows.
           ts (rows ! i) = grid accel0 ! i \<and>
           ax (rows ! i) = interp (grid accel0 ! i)
              (zip (map fst (trimmed accel0)) (map (\<lambda>r. fst (snd r)) (trimmed accel0))) \<and>
           ay (rows ! i) = interp (grid accel0 ! i)
              (zip (map fst (trimmed accel0)) (map (\<lambda>r. fst (snd (snd r))) (trimmed accel0))) \<and>
           az (rows ! i) = interp (grid accel0 ! i)
              (zip (map fst (trimmed accel0)) (map (\<lambda>r. snd (snd (snd r))) (trimmed accel0))) \<and>
           label (rows ! i) \<in> snd ` set truth"
  proof (intro allI impI)
    fix i assume i: "i < length rows"
    have lab: "label (rows ! i) \<in> snd ` set truth"
      using ok i by (rule stimuli_label_in_truth)
    from i len have "i < nat (grid_N accel0)" by simp
    then show "ts (rows ! i) = grid accel0 ! i \<and>
           ax (rows ! i) = interp (grid accel0 ! i)
              (zip (map fst (trimmed accel0)) (map (\<lambda>r. fst (snd r)) (trimmed accel0))) \<and>
           ay (rows ! i) = interp (grid accel0 ! i)
              (zip (map fst (trimmed accel0)) (map (\<lambda>r. fst (snd (snd r))) (trimmed accel0))) \<and>
           az (rows ! i) = interp (grid accel0 ! i)
              (zip (map fst (trimmed accel0)) (map (\<lambda>r. snd (snd (snd r))) (trimmed accel0))) \<and>
           label (rows ! i) \<in> snd ` set truth"
      using lab by (simp add: rows)
  qed
qed

theorem stimuli_row_count_witness:
  "stimuli [(0, 0, 0, 1), (1 / 5, 1, 0, 1)] [(0, 0), (1 / 10, 2), (30, 1)] =
     Inr [\<lparr>ts = 0, ax = 0, ay = 0, az = 1, label = 0\<rparr>,
          \<lparr>ts = 1 / 5, ax = 1, ay = 0, az = 1, label = 2\<rparr>] \<and>
   trimmed [(0, 0, 0, 1), (1 / 5, 1, 0, 1)] \<noteq> [] \<and>
   grid_N [(0, 0, 0, 1), (1 / 5, 1, 0, 1)] = 2 \<and>
   2 \<le> length [(0, 0), (1 / 10, 2), (30 :: real, 1 :: real)] \<and>
   int (length [\<lparr>ts = 0, ax = 0, ay = 0, az = 1, label = 0\<rparr>,
                \<lparr>ts = 1 / 5, ax = 1, ay = 0, az = 1, label = (2::real)\<rparr>]) =
     \<lfloor>fl64 (fl64 (fst (last (trimmed [(0, 0, 0, 1), (1 / 5, 1, 0, 1)])) -
                   fst (hd (trimmed [(0, 0, 0, 1), (1 / 5, 1, 0, 1)]))) /
             fl64 (1 / real fs))\<rfloor>"
proof -
  have "int (length [\<lparr>ts = 0, ax = 0, ay = 0, az = 1, label = 0\<rparr>,
                \<lparr>ts = 1 / 5, ax = 1, ay = 0, az = 1, label = (2::real)\<rparr>]) =
     \<lfloor>fl64 (fl64 (fst (last (trimmed [(0, 0, 0, 1), (1 / 5, 1, 0, 1)])) -
                   fst (hd (trimmed [(0, 0, 0, 1), (1 / 5, 1, 0, 1)]))) /
             fl64 (1 / real fs))\<rfloor>"
    using stimuli_row_count [of "[(0, 0, 0, 1), (1 / 5, 1, 0, 1)]"
      "[(0, 0), (1 / 10, 2), (30, 1)]"
      "[\<lparr>ts = 0, ax = 0, ay = 0, az = 1, label = 0\<rparr>,
        \<lparr>ts = 1 / 5, ax = 1, ay = 0, az = 1, label = 2\<rparr>]"]
      stimuli_two_samples
    by blast
  moreover have "trimmed [(0, 0, 0, 1), (1 / 5, 1, 0, 1)] \<noteq> []" by (simp add: trimmed_def)
  moreover have "2 \<le> length [(0, 0), (1 / 10, 2), (30 :: real, 1 :: real)]" by simp
  ultimately show ?thesis using stimuli_two_samples grid_N_fifth by blast
qed

section \<open>Zero-order hold of the labels\<close>

text \<open>
  C7. Whenever \<open>stimuli\<close> returns rows: the label of the first row is the label of the
  first label sample, unconditionally; for every row \<open>i \<ge> 1\<close> the label samples with a
  timestamp strictly below the grid timestamp \<open>t[i]\<close> are not empty and the row's label
  is the label of the last of them, which for a label stream ordered by time is the most
  recent one (no label sample strictly before \<open>t[i]\<close> is later); so every label of the
  output is a label of the label stream.
\<close>

theorem label_zero_order_hold:
  assumes "stimuli accel0 truth = Inr rows"
  shows "rows \<noteq> [] \<and> label (rows ! 0) = snd (hd truth)
    \<and> (\<forall>i. 1 \<le> i \<and> i < length rows \<longrightarrow>
          filter (\<lambda>r. fst r < ts (rows ! i)) truth \<noteq> [] \<and>
          label (rows ! i) = snd (last (filter (\<lambda>r. fst r < ts (rows ! i)) truth)))
    \<and> (sorted (map fst truth) \<longrightarrow>
          (\<forall>i. 1 \<le> i \<and> i < length rows \<longrightarrow>
             (\<forall>r \<in> set truth. fst r < ts (rows ! i) \<longrightarrow>
                fst r \<le> fst (last (filter (\<lambda>r. fst r < ts (rows ! i)) truth)))))
    \<and> (\<forall>i < length rows. label (rows ! i) \<in> snd ` set truth)"
proof -
  have a: "rows \<noteq> []" and b: "label (rows ! 0) = snd (hd truth)"
    using stimuli_labels(1,2) [OF assms] by simp_all
  have c: "\<forall>i. 1 \<le> i \<and> i < length rows \<longrightarrow>
          filter (\<lambda>r. fst r < ts (rows ! i)) truth \<noteq> [] \<and>
          label (rows ! i) = snd (last (filter (\<lambda>r. fst r < ts (rows ! i)) truth))"
    using stimuli_labels(3) [OF assms] by blast
  have d: "sorted (map fst truth) \<longrightarrow>
          (\<forall>i. 1 \<le> i \<and> i < length rows \<longrightarrow>
             (\<forall>r \<in> set truth. fst r < ts (rows ! i) \<longrightarrow>
                fst r \<le> fst (last (filter (\<lambda>r. fst r < ts (rows ! i)) truth))))"
    using last_filter_latest [of truth] by blast
  have e: "\<forall>i < length rows. label (rows ! i) \<in> snd ` set truth"
    using stimuli_label_in_truth [OF assms] by blast
  from a b c d e show ?thesis by blast
qed

theorem label_zero_order_hold_witness:
  "stimuli [(0, 0, 0, 1), (1 / 5, 1, 0, 1)] [(0, 0), (1 / 10, 2), (30, 1)] =
     Inr [\<lparr>ts = 0, ax = 0, ay = 0, az = 1, label = 0\<rparr>,
          \<lparr>ts = 1 / 5, ax = 1, ay = 0, az = 1, label = 2\<rparr>] \<and>
   sorted (map fst [(0, 0), (1 / 10, 2), (30 :: real, 1 :: real)]) \<and>
   filter (\<lambda>r. fst r < 1 / 5) [(0, 0), (1 / 10, 2), (30 :: real, 1 :: real)] =
     [(0, 0), (1 / 10, 2)] \<and>
   label ([\<lparr>ts = 0, ax = 0, ay = 0, az = 1, label = 0\<rparr>,
           \<lparr>ts = 1 / 5, ax = 1, ay = 0, az = 1, label = 2\<rparr>] ! 1) =
     snd (last (filter (\<lambda>r. fst r < ts ([\<lparr>ts = 0, ax = 0, ay = 0, az = 1, label = 0\<rparr>,
           \<lparr>ts = 1 / 5, ax = 1, ay = 0, az = 1, label = 2\<rparr>] ! 1))
        [(0, 0), (1 / 10, 2), (30, 1)]))"
proof -
  have ok: "stimuli [(0, 0, 0, 1), (1 / 5, 1, 0, 1)] [(0, 0), (1 / 10, 2), (30, 1)] =
     Inr [\<lparr>ts = 0, ax = 0, ay = 0, az = 1, label = 0\<rparr>,
          \<lparr>ts = 1 / 5, ax = 1, ay = 0, az = 1, label = 2\<rparr>]"
    by (rule stimuli_two_samples)
  have i: "1 \<le> (1::nat) \<and> 1 < length [\<lparr>ts = 0, ax = 0, ay = 0, az = 1, label = 0\<rparr>,
          \<lparr>ts = 1 / 5, ax = 1, ay = 0, az = 1, label = (2::real)\<rparr>]"
    by simp
  from label_zero_order_hold [OF ok] i have
    "label ([\<lparr>ts = 0, ax = 0, ay = 0, az = 1, label = 0\<rparr>,
           \<lparr>ts = 1 / 5, ax = 1, ay = 0, az = 1, label = 2\<rparr>] ! 1) =
     snd (last (filter (\<lambda>r. fst r < ts ([\<lparr>ts = 0, ax = 0, ay = 0, az = 1, label = 0\<rparr>,
           \<lparr>ts = 1 / 5, ax = 1, ay = 0, az = 1, label = 2\<rparr>] ! 1))
        [(0, 0), (1 / 10, 2), (30, 1)]))"
    by blast
  moreover have "sorted (map fst [(0, 0), (1 / 10, 2), (30 :: real, 1 :: real)])" by simp
  moreover have "filter (\<lambda>r. fst r < 1 / 5) [(0, 0), (1 / 10, 2), (30 :: real, 1 :: real)] =
     [(0, 0), (1 / 10, 2)]" by simp
  ultimately show ?thesis using ok by blast
qed

section \<open>The failures of the resampler\<close>

text \<open>
  C8 as stated fails in its third case: with no label sample at or before the first
  grid timestamp the program still returns rows when a label sample lies before the
  second grid timestamp, because the first label is taken without any test. Here the
  first grid timestamp is 0 and the first label sample is at \<open>t = 0.05\<close>.
\<close>

theorem no_label_at_first_grid_point_counterexample:
  "filter (\<lambda>r. fst r \<le> 0) [(1 / 20, 3), (30 :: real, 1 :: real)] = [] \<and>
   stimuli [(0, 0, 0, 1), (1 / 5, 1, 0, 1)] [(1 / 20, 3), (30, 1)] =
     Inr [\<lparr>ts = 0, ax = 0, ay = 0, az = 1, label = 3\<rparr>,
          \<lparr>ts = 1 / 5, ax = 1, ay = 0, az = 1, label = 3\<rparr>]"
  by (simp add: stimuli_late_label)

text \<open>
  C8, amended. \<open>stimuli\<close> raises instead of returning rows
  \<^item> when the accelerometer stream is empty after the trim (IndexError at \<open>t[-1]\<close>);
  \<^item> when \<open>N < 0\<close> (ValueError from \<open>np.linspace\<close>) or \<open>N = 0\<close> (IndexError at
    \<open>truth_interp[0]\<close>);
  \<^item> when the label stream is empty (IndexError at \<open>truth[0, 1]\<close>);
  \<^item> when some grid timestamp \<open>t[i]\<close> with \<open>i \<ge> 1\<close> has no label sample strictly
    before it (IndexError at the empty selection).
  The program has no error of its own and no test at the first grid timestamp.
\<close>

theorem stimuli_failures:
  "(trimmed accel0 = [] \<longrightarrow> stimuli accel0 truth = Inl IndexError)
   \<and> (trimmed accel0 \<noteq> [] \<and> grid_N accel0 < 0 \<longrightarrow> stimuli accel0 truth = Inl ValueError)
   \<and> (trimmed accel0 \<noteq> [] \<and> grid_N accel0 = 0 \<longrightarrow> stimuli accel0 truth = Inl IndexError)
   \<and> (trimmed accel0 \<noteq> [] \<and> 0 \<le> grid_N accel0 \<and> truth = [] \<longrightarrow>
        stimuli accel0 truth = Inl IndexError)
   \<and> (trimmed accel0 \<noteq> [] \<and> 1 \<le> grid_N accel0 \<and> truth \<noteq> [] \<and>
        (\<exists>i. 1 \<le> i \<and> i < nat (grid_N accel0) \<and> (\<forall>r \<in> set truth. \<not> fst r < grid accel0 ! i))
        \<longrightarrow> stimuli accel0 truth = Inl IndexError)"
proof (intro conjI impI)
  assume "trimmed accel0 \<noteq> [] \<and> 1 \<le> grid_N accel0 \<and> truth \<noteq> [] \<and>
        (\<exists>i. 1 \<le> i \<and> i < nat (grid_N accel0) \<and> (\<forall>r \<in> set truth. \<not> fst r < grid accel0 ! i))"
  then obtain i where t: "trimmed accel0 \<noteq> []" and n: "1 \<le> grid_N accel0"
    and tr: "truth \<noteq> []" and i: "1 \<le> i" "i < nat (grid_N accel0)"
    and none: "\<forall>r \<in> set truth. \<not> fst r < grid accel0 ! i"
    by blast
  from i obtain j where j: "i = Suc j" by (cases i) auto
  have "tl (grid accel0) ! j = grid accel0 ! i"
    using i j by (simp add: nth_tl length_grid)
  moreover have "j < length (tl (grid accel0))" using i j by (simp add: length_grid)
  ultimately have mem: "grid accel0 ! i \<in> set (tl (grid accel0))"
    by (metis nth_mem)
  have "filter (\<lambda>r. fst r < grid accel0 ! i) truth = []"
    using none by (simp add: filter_empty_conv)
  from hold_loop_fails [OF mem this] t n tr show "stimuli accel0 truth = Inl IndexError"
    by (simp add: stimuli_unfold)
qed (simp_all add: stimuli_unfold)

theorem stimuli_failures_witness:
  "trimmed [(- 2, 0, 0, 1), (- 1, 0, 0, 1)] = [] \<and>
   stimuli [(- 2, 0, 0, 1), (- 1, 0, 0, 1)] [(0, 0), (30, 1)] = Inl IndexError \<and>
   trimmed [(1, 0, 0, 1), (0, 0, 0, 1)] \<noteq> [] \<and> grid_N [(1, 0, 0, 1), (0, 0, 0, 1)] < 0 \<and>
   stimuli [(1, 0, 0, 1), (0, 0, 0, 1)] [(0, 0), (30, 1)] = Inl ValueError \<and>
   trimmed [(0, 0, 0, 1), (1 / 20, 0, 0, 1)] \<noteq> [] \<and>
   grid_N [(0, 0, 0, 1), (1 / 20, 0, 0, 1)] = 0 \<and>
   stimuli [(0, 0, 0, 1), (1 / 20, 0, 0, 1)] [(0, 0), (30, 1)] = Inl IndexError"
proof -
  have a: "trimmed [(- 2, 0, 0, 1), (- 1, 0, 0, 1)] = []" by (simp add: trimmed_def)
  have b: "trimmed [(1, 0, 0, 1), (0, 0, 0, 1)] \<noteq> [] \<and> grid_N [(1, 0, 0, 1), (0, 0, 0, 1)] < 0"
    by (simp add: trimmed_def grid_N_backwards)
  have c: "trimmed [(0, 0, 0, 1), (1 / 20, 0, 0, 1)] \<noteq> [] \<and>
           grid_N [(0, 0, 0, 1), (1 / 20, 0, 0, 1)] = 0"
    by (simp add: trimmed_def grid_N_twentieth)
  from a b c
    stimuli_failures [of "[(- 2, 0, 0, 1), (- 1, 0, 0, 1)]" "[(0, 0), (30, 1)]"]
    stimuli_failures [of "[(1, 0, 0, 1), (0, 0, 0, 1)]" "[(0, 0), (30, 1)]"]
    stimuli_failures [of "[(0, 0, 0, 1), (1 / 20, 0, 0, 1)]" "[(0, 0), (30, 1)]"]
  show ?thesis by blast
qed

section \<open>The seed event\<close>

text \<open>
  C9. For every input stream, the event sequence returned by the classifier starts
  with the seed \<open>[0, 0]\<close> (time 0, state 0), which is in the list before the loop
  classifies anything.
\<close>

theorem seed_event_first:
  "\<exists>rest. fst (vanhees2015_modified stim) = (0, 0) # rest"
proof -
  have "ret (vh_init (length stim)) = (0, 0) # []"
    by (simp add: vh_init_def)
  from ret_vh_loop_seed [OF this] show ?thesis
    by (simp add: vanhees2015_modified_def Let_def)
qed

section \<open>The division in the arm angle\<close>




end
